theory Spec2Isabelle
  imports Main
begin

section \<open>Faults and machine sizes\<close>

text \<open>
  The C code has undefined behaviour where it copies through a null pointer, reads an
  array out of range or takes a remainder by zero. Each of these is a value of
  \<open>fault\<close>, and every operation returns \<open>fault + result\<close>: \<open>Inl\<close> is the
  crash, \<open>Inr\<close> the normal return.

  \<open>size_t\<close> values are natural numbers. Where the code subtracts (\<open>count--\<close>,
  \<open>capacity - used\<close>) the wrap-around at \<open>2 ^ 64\<close> is written out, and so it is for
  \<open>used += size\<close>. The capacity of a table and its count are not wrapped: the slot
  array takes \<open>24 * capacity\<close> bytes of a 64-bit address space, so a capacity whose
  double overflows cannot be allocated, and count stays below capacity.
\<close>

datatype fault = NullDeref | OutOfBounds | DivByZero

definition SIZE_MAX :: nat where
  "SIZE_MAX = 2 ^ 64 - 1"

definition size_sub :: "nat \<Rightarrow> nat \<Rightarrow> nat" where
  "size_sub a b = (if b \<le> a then a - b else a + 2 ^ 64 - b)"

definition size_add :: "nat \<Rightarrow> nat \<Rightarrow> nat" where
  "size_add a b = (a + b) mod 2 ^ 64"

section \<open>The allocator capability (stdx\_allocator.h)\<close>

text \<open>
  \<open>XAllocator\<close> stands for the allocator object a table borrows (or the default heap
  allocator when the pointer is null). Whether a request succeeds is the environment's
  choice: \<open>will_succeed a n sz\<close> says whether the \<open>n\<close>-th request made through the
  allocator, for \<open>sz\<close> bytes, returns a non-null block. \<open>n_allocs\<close> and \<open>n_frees\<close>
  count the calls issued through \<open>stdx_alloc\<close> and \<open>stdx_free\<close>.
\<close>

record XAllocator =
  will_succeed :: "nat \<Rightarrow> nat \<Rightarrow> bool"
  n_allocs :: nat
  n_frees :: nat

definition stdx_alloc :: "XAllocator \<Rightarrow> nat \<Rightarrow> bool \<times> XAllocator" where
  "stdx_alloc a sz = (will_succeed a (n_allocs a) sz, a\<lparr>n_allocs := Suc (n_allocs a)\<rparr>)"

definition stdx_free :: "XAllocator \<Rightarrow> XAllocator" where
  "stdx_free a = a\<lparr>n_frees := Suc (n_frees a)\<rparr>"

section \<open>The hashtable (stdx\_hashtable.h)\<close>

subsection \<open>Data\<close>

text \<open>
  A slot owns two separately allocated blocks. A block pointer is modelled by the
  contents of the block it points to: \<open>None\<close> is the null pointer, \<open>Some k\<close> a block
  holding the \<open>key_size\<close> bytes \<open>k\<close>. Keys and values are the byte blocks that
  \<open>memcpy\<close> copies in and out; \<open>hash_fn\<close> and \<open>eq_fn\<close> are the callbacks of the
  table, reading such blocks. The fields \<open>key\<close>, \<open>value\<close> and \<open>occupied\<close> of
  \<open>XHashEntry\<close> are written with the prefix \<open>e_\<close>.
\<close>

record ('k, 'v) XHashEntry =
  e_key :: "'k option"
  e_value :: "'v option"
  e_occupied :: bool

record ('k, 'v) XHashtable =
  key_size :: nat
  value_size :: nat
  count :: nat
  capacity :: nat
  entries :: "('k, 'v) XHashEntry list"
  hash_fn :: "'k \<Rightarrow> nat"
  eq_fn :: "'k \<Rightarrow> 'k \<Rightarrow> bool"
  allocator :: XAllocator

definition INITIAL_CAPACITY :: nat where
  "INITIAL_CAPACITY = 16"

definition sizeof_XHashtable :: nat where
  "sizeof_XHashtable = 64"

definition sizeof_XHashEntry :: nat where
  "sizeof_XHashEntry = 24"

text \<open>The all-zero entry written by \<open>memset\<close> and by \<open>(XHashEntry){0}\<close>.\<close>

definition zero_entry :: "('k, 'v) XHashEntry" where
  "zero_entry = \<lparr>e_key = None, e_value = None, e_occupied = False\<rparr>"

subsection \<open>Creation\<close>

text \<open>
  \<open>x_hashtable_create_ex\<close> returns the null handle when the table struct cannot be
  allocated; the slot array is cleared with \<open>memset\<close> without a check.
\<close>

definition x_hashtable_create_ex ::
  "nat \<Rightarrow> nat \<Rightarrow> ('k \<Rightarrow> nat) \<Rightarrow> ('k \<Rightarrow> 'k \<Rightarrow> bool) \<Rightarrow> XAllocator
     \<Rightarrow> fault + ('k, 'v) XHashtable option" where
  "x_hashtable_create_ex ks vs hf eqf a =
     (case stdx_alloc a sizeof_XHashtable of
        (ok1, a1) \<Rightarrow>
          if \<not> ok1 then Inr None
          else (case stdx_alloc a1 (INITIAL_CAPACITY * sizeof_XHashEntry) of
            (ok2, a2) \<Rightarrow>
              if \<not> ok2 then Inl NullDeref
              else Inr (Some \<lparr>key_size = ks, value_size = vs, count = 0,
                               capacity = INITIAL_CAPACITY,
                               entries = replicate INITIAL_CAPACITY zero_entry,
                               hash_fn = hf, eq_fn = eqf, allocator = a2\<rparr>)))"

subsection \<open>Probing\<close>

text \<open>
  The loop of \<open>probe_index\<close>. The local \<open>start\<close> is \<open>hash_fn t k mod capacity t\<close>
  throughout. A stored key that is the null pointer is handed to \<open>eq_fn\<close>, which
  reads it. \<open>probe_dist\<close> is the number of slots left before the index is back at
  \<open>start\<close>; it decreases with every turn of the loop.
\<close>

definition probe_dist :: "nat \<Rightarrow> nat \<Rightarrow> nat \<Rightarrow> nat" where
  "probe_dist cap start idx =
     (if cap \<le> idx then 2 * cap
      else if idx < start then start - idx - 1
      else cap + start - idx - 1)"

lemma mod_succ_cases: "idx < cap \<Longrightarrow> Suc idx mod cap = (if Suc idx = cap then 0 else Suc idx)"
  by auto

lemma probe_dist_decreases:
  assumes c0: "0 < c" and sc: "s < c" and ne: "(idx + 1) mod c \<noteq> s"
  shows "probe_dist c s ((idx + 1) mod c) < probe_dist c s idx"
proof (cases "idx < c")
  case True
  then show ?thesis
    using sc ne c0 by (auto simp: probe_dist_def mod_succ_cases split: if_splits)
next
  case False
  define j where "j = (idx + 1) mod c"
  have "j < c" using c0 by (simp add: j_def)
  then have "probe_dist c s j < probe_dist c s idx"
    using False sc by (auto simp: probe_dist_def)
  then show ?thesis by (simp add: j_def)
qed

function probe_loop :: "('k, 'v) XHashtable \<Rightarrow> 'k \<Rightarrow> nat \<Rightarrow> fault + nat \<times> bool" where
  "probe_loop t k idx =
     (if length (entries t) \<le> idx then Inl OutOfBounds
      else if \<not> e_occupied (entries t ! idx) then Inr (idx, False)
      else case e_key (entries t ! idx) of
             None \<Rightarrow> Inl NullDeref
           | Some k' \<Rightarrow>
               if eq_fn t k k' then Inr (idx, True)
               else if capacity t = 0 then Inl DivByZero
               else if (idx + 1) mod capacity t = hash_fn t k mod capacity t then
                 Inr ((idx + 1) mod capacity t, False)
               else probe_loop t k ((idx + 1) mod capacity t))"
  by pat_completeness auto

termination probe_loop
proof (relation "measure (\<lambda>(t, k, idx). probe_dist (capacity t) (hash_fn t k mod capacity t) idx)")
  show "wf (measure (\<lambda>(t, k, idx). probe_dist (capacity t) (hash_fn t k mod capacity t) idx))"
    by simp
next
  fix t :: "('k, 'v) XHashtable" and k :: 'k and idx :: nat and k' :: 'k
  assume "capacity t \<noteq> 0"
    and "(idx + 1) mod capacity t \<noteq> hash_fn t k mod capacity t"
  then have "probe_dist (capacity t) (hash_fn t k mod capacity t) ((idx + 1) mod capacity t)
      < probe_dist (capacity t) (hash_fn t k mod capacity t) idx"
    by (intro probe_dist_decreases) simp_all
  then show "((t, k, (idx + 1) mod capacity t), (t, k, idx))
      \<in> measure (\<lambda>(t, k, idx). probe_dist (capacity t) (hash_fn t k mod capacity t) idx)"
    by simp
qed

declare probe_loop.simps [simp del]

definition probe_index :: "('k, 'v) XHashtable \<Rightarrow> 'k \<Rightarrow> fault + nat \<times> bool" where
  "probe_index t k =
     (if capacity t = 0 then Inl DivByZero
      else probe_loop t k (hash_fn t k mod capacity t))"

text \<open>
  The number of slots the loop of \<open>probe_index\<close> inspects from \<open>idx\<close> on: one for
  every evaluation of the loop condition. It follows the recursion of \<open>probe_loop\<close>
  case by case.
\<close>

function probe_steps :: "('k, 'v) XHashtable \<Rightarrow> 'k \<Rightarrow> nat \<Rightarrow> nat" where
  "probe_steps t k idx =
     (if length (entries t) \<le> idx then 1
      else if \<not> e_occupied (entries t ! idx) then 1
      else case e_key (entries t ! idx) of
             None \<Rightarrow> 1
           | Some k' \<Rightarrow>
               if eq_fn t k k' then 1
               else if capacity t = 0 then 1
               else if (idx + 1) mod capacity t = hash_fn t k mod capacity t then 1
               else 1 + probe_steps t k ((idx + 1) mod capacity t))"
  by pat_completeness auto

termination probe_steps
proof (relation "measure (\<lambda>(t, k, idx). probe_dist (capacity t) (hash_fn t k mod capacity t) idx)")
  show "wf (measure (\<lambda>(t, k, idx). probe_dist (capacity t) (hash_fn t k mod capacity t) idx))"
    by simp
next
  fix t :: "('k, 'v) XHashtable" and k :: 'k and idx :: nat and k' :: 'k
  assume "capacity t \<noteq> 0"
    and "(idx + 1) mod capacity t \<noteq> hash_fn t k mod capacity t"
  then have "probe_dist (capacity t) (hash_fn t k mod capacity t) ((idx + 1) mod capacity t)
      < probe_dist (capacity t) (hash_fn t k mod capacity t) idx"
    by (intro probe_dist_decreases) simp_all
  then show "((t, k, (idx + 1) mod capacity t), (t, k, idx))
      \<in> measure (\<lambda>(t, k, idx). probe_dist (capacity t) (hash_fn t k mod capacity t) idx)"
    by simp
qed

declare probe_steps.simps [simp del]

definition probe_index_steps :: "('k, 'v) XHashtable \<Rightarrow> 'k \<Rightarrow> nat" where
  "probe_index_steps t k =
     (if capacity t = 0 then 0
      else probe_steps t k (hash_fn t k mod capacity t))"

subsection \<open>Insertion and growth\<close>

text \<open>
  The test \<open>(double)count / capacity >= 0.75\<close>. For a capacity of zero the quotient is
  infinite (true) or not a number (false); otherwise the comparison of the rounded
  quotient with \<open>0.75\<close> agrees with \<open>3 * capacity \<le> 4 * count\<close> on integers (both
  below \<open>2 ^ 52\<close>, where the conversion is exact and no quotient below \<open>0.75\<close> rounds
  up to it).
\<close>

definition load_exceeded :: "('k, 'v) XHashtable \<Rightarrow> bool" where
  "load_exceeded t =
     (if capacity t = 0 then 0 < count t else 3 * capacity t \<le> 4 * count t)"

text \<open>
  The part of \<open>x_hashtable_set\<close> after the load check: probe, create the entry when
  the key was not found, copy the value in. A failed allocation leaves a null block
  pointer, through which the next \<open>memcpy\<close> writes.
\<close>

definition x_hashtable_set_store ::
  "('k, 'v) XHashtable \<Rightarrow> 'k \<Rightarrow> 'v \<Rightarrow> fault + ('k, 'v) XHashtable" where
  "x_hashtable_set_store t k v =
     (case probe_index t k of
        Inl f \<Rightarrow> Inl f
      | Inr (idx, found) \<Rightarrow>
          if length (entries t) \<le> idx then Inl OutOfBounds
          else if \<not> found then
            (case stdx_alloc (allocator t) (key_size t) of
               (ok1, a1) \<Rightarrow>
                 if \<not> ok1 then Inl NullDeref
                 else (case stdx_alloc a1 (value_size t) of
                   (ok2, a2) \<Rightarrow>
                     if \<not> ok2 then Inl NullDeref
                     else Inr (t\<lparr>entries := (entries t)[idx :=
                                   \<lparr>e_key = Some k, e_value = Some v, e_occupied = True\<rparr>],
                                 count := count t + 1,
                                 allocator := a2\<rparr>)))
          else (case e_value (entries t ! idx) of
                  None \<Rightarrow> Inl NullDeref
                | Some _ \<Rightarrow>
                    Inr (t\<lparr>entries := (entries t)[idx := (entries t ! idx)\<lparr>e_value := Some v\<rparr>]\<rparr>)))"

text \<open>
  \<open>x_hashtable_set\<close> on a table that is not null, \<open>x_hashtable_rehash\<close> and the loop
  of the latter over the old slot array call each other. The ranking below orders the
  calls: a rehash loop whose remaining insertions cannot reach the load factor
  (\<open>rehash_safe\<close>) never triggers a nested rehash.
\<close>

definition rehash_safe :: "nat \<Rightarrow> nat \<Rightarrow> ('k, 'v) XHashtable \<Rightarrow> bool" where
  "rehash_safe old_cap i t = (old_cap \<le> i \<or> 4 * (count t + (old_cap - i)) < 3 * capacity t)"

definition set_rank ::
  "('k, 'v) XHashtable \<times> 'k \<times> 'v + ('k, 'v) XHashtable
     + ('k, 'v) XHashEntry list \<times> nat \<times> nat \<times> ('k, 'v) XHashtable \<Rightarrow> nat \<times> nat" where
  "set_rank x =
     (case x of
        Inl (t, k, v) \<Rightarrow> (if load_exceeded t then 2 else 0, 0)
      | Inr (Inl t) \<Rightarrow> (1, 0)
      | Inr (Inr (old_entries, old_cap, i, t)) \<Rightarrow>
          if rehash_safe old_cap i t then (0, 2 * (old_cap - i) + 1) else (3, old_cap - i))"

lemma set_store_count_capacity:
  "x_hashtable_set_store t k v = Inr t' \<Longrightarrow> count t' \<le> count t + 1 \<and> capacity t' = capacity t"
  by (auto simp: x_hashtable_set_store_def split: sum.splits prod.splits if_splits option.splits)

lemma rehash_safe_not_exceeded:
  "rehash_safe old_cap i t \<Longrightarrow> i < old_cap \<Longrightarrow> \<not> load_exceeded t"
  by (auto simp: rehash_safe_def load_exceeded_def)

lemma rehash_safe_step:
  "rehash_safe old_cap i t \<Longrightarrow> count t' \<le> count t + 1 \<Longrightarrow> capacity t' = capacity t
     \<Longrightarrow> rehash_safe old_cap (i + 1) t'"
  by (auto simp: rehash_safe_def)

function x_hashtable_set_nonnull ::
    "('k, 'v) XHashtable \<Rightarrow> 'k \<Rightarrow> 'v \<Rightarrow> fault + ('k, 'v) XHashtable"
  and x_hashtable_rehash :: "('k, 'v) XHashtable \<Rightarrow> fault + ('k, 'v) XHashtable"
  and rehash_loop ::
    "('k, 'v) XHashEntry list \<Rightarrow> nat \<Rightarrow> nat \<Rightarrow> ('k, 'v) XHashtable \<Rightarrow> fault + ('k, 'v) XHashtable"
where
  "x_hashtable_set_nonnull t k v =
     (if load_exceeded t then
        (case x_hashtable_rehash t of
           Inl f \<Rightarrow> Inl f
         | Inr t' \<Rightarrow> x_hashtable_set_store t' k v)
      else x_hashtable_set_store t k v)"
| "x_hashtable_rehash t =
     (case stdx_alloc (allocator t) (capacity t * 2 * sizeof_XHashEntry) of
        (ok, a1) \<Rightarrow>
          if \<not> ok then Inl NullDeref
          else rehash_loop (entries t) (capacity t) 0
                 (t\<lparr>capacity := capacity t * 2,
                    entries := replicate (capacity t * 2) zero_entry,
                    count := 0,
                    allocator := a1\<rparr>))"
| "rehash_loop old_entries old_cap i t =
     (if i < old_cap then
        (if length old_entries \<le> i then Inl OutOfBounds
         else if \<not> e_occupied (old_entries ! i) then rehash_loop old_entries old_cap (i + 1) t
         else (case e_key (old_entries ! i) of
                 None \<Rightarrow> Inl NullDeref
               | Some k \<Rightarrow>
                   (case e_value (old_entries ! i) of
                      None \<Rightarrow> Inl NullDeref
                    | Some v \<Rightarrow>
                        (case x_hashtable_set_nonnull t k v of
                           Inl f \<Rightarrow> Inl f
                         | Inr t' \<Rightarrow>
                             rehash_loop old_entries old_cap (i + 1)
                               (t'\<lparr>allocator := stdx_free (stdx_free (allocator t'))\<rparr>)))))
      else Inr (t\<lparr>allocator := stdx_free (allocator t)\<rparr>))"
  by pat_completeness auto

termination
proof (relation "inv_image (less_than <*lex*> less_than) set_rank")
  show "wf (inv_image (less_than <*lex*> less_than) set_rank)"
    by (intro wf_inv_image wf_lex_prod wf_less_than)
next
  fix t :: "('k, 'v) XHashtable" and k :: 'k and v :: 'v
  assume "load_exceeded t"
  then show "(Inr (Inl t), Inl (t, k, v)) \<in> inv_image (less_than <*lex*> less_than) set_rank"
    by (simp add: set_rank_def)
next
  fix t :: "('k, 'v) XHashtable" and y
  have "rehash_safe (capacity t) 0
          (t\<lparr>capacity := capacity t * 2, entries := replicate (capacity t * 2) zero_entry,
             count := 0, allocator := y\<rparr>)"
    by (auto simp: rehash_safe_def)
  then show "(Inr (Inr (entries t, capacity t, 0,
                 t\<lparr>capacity := capacity t * 2, entries := replicate (capacity t * 2) zero_entry,
                   count := 0, allocator := y\<rparr>)), Inr (Inl t))
      \<in> inv_image (less_than <*lex*> less_than) set_rank"
    by (simp add: set_rank_def)
next
  fix old_entries :: "('k, 'v) XHashEntry list" and old_cap i :: nat and t :: "('k, 'v) XHashtable"
  assume lt: "i < old_cap"
  show "(Inr (Inr (old_entries, old_cap, i + 1, t)), Inr (Inr (old_entries, old_cap, i, t)))
      \<in> inv_image (less_than <*lex*> less_than) set_rank"
  proof (cases "rehash_safe old_cap i t")
    case True
    then have "rehash_safe old_cap (i + 1) t" by (rule rehash_safe_step) simp_all
    with True lt show ?thesis by (simp add: set_rank_def)
  next
    case False
    with lt show ?thesis by (auto simp: set_rank_def)
  qed
next
  fix old_entries :: "('k, 'v) XHashEntry list" and old_cap i :: nat and t :: "('k, 'v) XHashtable"
    and x2 :: 'k and x2a :: 'v
  assume lt: "i < old_cap"
  show "(Inl (t, x2, x2a), Inr (Inr (old_entries, old_cap, i, t)))
      \<in> inv_image (less_than <*lex*> less_than) set_rank"
  proof (cases "rehash_safe old_cap i t")
    case True
    from True lt have "\<not> load_exceeded t" by (rule rehash_safe_not_exceeded)
    with True show ?thesis by (simp add: set_rank_def)
  next
    case False
    then show ?thesis by (simp add: set_rank_def)
  qed
next
  fix old_entries :: "('k, 'v) XHashEntry list" and old_cap i :: nat and t b :: "('k, 'v) XHashtable"
    and x2 :: 'k and x2a :: 'v
  assume lt: "i < old_cap"
    and res: "x_hashtable_set_nonnull t x2 x2a = Inr b"
    and dom: "x_hashtable_set_nonnull_x_hashtable_rehash_rehash_loop_dom (Inl (t, x2, x2a))"
  let ?b = "b\<lparr>allocator := stdx_free (stdx_free (allocator b))\<rparr>"
  show "(Inr (Inr (old_entries, old_cap, i + 1, ?b)), Inr (Inr (old_entries, old_cap, i, t)))
      \<in> inv_image (less_than <*lex*> less_than) set_rank"
  proof (cases "rehash_safe old_cap i t")
    case True
    from True lt have ne: "\<not> load_exceeded t" by (rule rehash_safe_not_exceeded)
    from dom ne res have "x_hashtable_set_store t x2 x2a = Inr b"
      by (simp add: x_hashtable_set_nonnull.psimps)
    then have "count b \<le> count t + 1 \<and> capacity b = capacity t"
      by (rule set_store_count_capacity)
    then have "rehash_safe old_cap (i + 1) ?b"
      using True by (intro rehash_safe_step [of old_cap i t]) simp_all
    with True lt show ?thesis by (simp add: set_rank_def)
  next
    case False
    with lt show ?thesis by (auto simp: set_rank_def)
  qed
qed

declare x_hashtable_set_nonnull.simps [simp del]
declare x_hashtable_rehash.simps [simp del]
declare rehash_loop.simps [simp del]

subsection \<open>The operations on a handle\<close>

text \<open>
  A handle is \<open>None\<close> (the null pointer) or \<open>Some t\<close>. \<open>x_hashtable_set\<close>,
  \<open>x_hashtable_get\<close> and \<open>x_hashtable_count\<close> test the handle; \<open>x_hashtable_has\<close>
  and \<open>x_hashtable_remove\<close> read through it at once. Each operation that changes the
  table returns the handle with the table as it is after the call. \<open>x_hashtable_get\<close>
  returns what it copied to \<open>out_value\<close>, \<open>None\<close> when it wrote nothing.
\<close>

definition x_hashtable_set ::
  "('k, 'v) XHashtable option \<Rightarrow> 'k \<Rightarrow> 'v \<Rightarrow> fault + bool \<times> ('k, 'v) XHashtable option" where
  "x_hashtable_set table k v =
     (case table of
        None \<Rightarrow> Inr (False, None)
      | Some t \<Rightarrow>
          (case x_hashtable_set_nonnull t k v of
             Inl f \<Rightarrow> Inl f
           | Inr t' \<Rightarrow> Inr (True, Some t')))"

definition x_hashtable_get ::
  "('k, 'v) XHashtable option \<Rightarrow> 'k \<Rightarrow> fault + bool \<times> 'v option" where
  "x_hashtable_get table k =
     (case table of
        None \<Rightarrow> Inr (False, None)
      | Some t \<Rightarrow>
          (case probe_index t k of
             Inl f \<Rightarrow> Inl f
           | Inr (idx, found) \<Rightarrow>
               if \<not> found then Inr (False, None)
               else if length (entries t) \<le> idx then Inl OutOfBounds
               else (case e_value (entries t ! idx) of
                       None \<Rightarrow> Inl NullDeref
                     | Some v \<Rightarrow> Inr (True, Some v))))"

definition x_hashtable_has :: "('k, 'v) XHashtable option \<Rightarrow> 'k \<Rightarrow> fault + bool" where
  "x_hashtable_has table k =
     (case table of
        None \<Rightarrow> Inl NullDeref
      | Some t \<Rightarrow>
          (case probe_index t k of
             Inl f \<Rightarrow> Inl f
           | Inr (idx, found) \<Rightarrow> Inr found))"

definition x_hashtable_remove ::
  "('k, 'v) XHashtable option \<Rightarrow> 'k \<Rightarrow> fault + bool \<times> ('k, 'v) XHashtable option" where
  "x_hashtable_remove table k =
     (case table of
        None \<Rightarrow> Inl NullDeref
      | Some t \<Rightarrow>
          (case probe_index t k of
             Inl f \<Rightarrow> Inl f
           | Inr (idx, found) \<Rightarrow>
               if \<not> found then Inr (False, Some t)
               else if length (entries t) \<le> idx then Inl OutOfBounds
               else Inr (True, Some (t\<lparr>allocator := stdx_free (stdx_free (allocator t)),
                                        entries := (entries t)[idx := zero_entry],
                                        count := size_sub (count t) 1\<rparr>))))"

definition x_hashtable_count :: "('k, 'v) XHashtable option \<Rightarrow> nat" where
  "x_hashtable_count table = (case table of None \<Rightarrow> 0 | Some t \<Rightarrow> count t)"

text \<open>A sequence of \<open>x_hashtable_set\<close> calls on one handle, stopping at a crash.\<close>

fun run_sets ::
  "('k, 'v) XHashtable option \<Rightarrow> ('k \<times> 'v) list \<Rightarrow> fault + ('k, 'v) XHashtable option" where
  "run_sets table [] = Inr table"
| "run_sets table ((k, v) # ops) =
     (case x_hashtable_set table k v of
        Inl f \<Rightarrow> Inl f
      | Inr (ok, table') \<Rightarrow> run_sets table' ops)"

text \<open>
  A client program: a list of calls made one after the other on one handle. \<open>run_calls\<close>
  returns what each call returned and the handle at the end; \<open>observe\<close> keeps the
  returned values, \<open>final_slots\<close> the slot array at the end.
\<close>

datatype ('k, 'v) call = Set 'k 'v | Get 'k | Has 'k | Remove 'k | Count

datatype 'v outcome = Flag bool | Copied bool "'v option" | Size nat

fun run_calls ::
  "('k, 'v) XHashtable option \<Rightarrow> ('k, 'v) call list
     \<Rightarrow> fault + 'v outcome list \<times> ('k, 'v) XHashtable option" where
  "run_calls table [] = Inr ([], table)"
| "run_calls table (Set k v # cs) =
     (case x_hashtable_set table k v of
        Inl f \<Rightarrow> Inl f
      | Inr (ok, table') \<Rightarrow>
          (case run_calls table' cs of
             Inl f \<Rightarrow> Inl f
           | Inr (os, table'') \<Rightarrow> Inr (Flag ok # os, table'')))"
| "run_calls table (Get k # cs) =
     (case x_hashtable_get table k of
        Inl f \<Rightarrow> Inl f
      | Inr (found, out_value) \<Rightarrow>
          (case run_calls table cs of
             Inl f \<Rightarrow> Inl f
           | Inr (os, table'') \<Rightarrow> Inr (Copied found out_value # os, table'')))"
| "run_calls table (Has k # cs) =
     (case x_hashtable_has table k of
        Inl f \<Rightarrow> Inl f
      | Inr found \<Rightarrow>
          (case run_calls table cs of
             Inl f \<Rightarrow> Inl f
           | Inr (os, table'') \<Rightarrow> Inr (Flag found # os, table'')))"
| "run_calls table (Remove k # cs) =
     (case x_hashtable_remove table k of
        Inl f \<Rightarrow> Inl f
      | Inr (found, table') \<Rightarrow>
          (case run_calls table' cs of
             Inl f \<Rightarrow> Inl f
           | Inr (os, table'') \<Rightarrow> Inr (Flag found # os, table'')))"
| "run_calls table (Count # cs) =
     (case run_calls table cs of
        Inl f \<Rightarrow> Inl f
      | Inr (os, table'') \<Rightarrow> Inr (Size (x_hashtable_count table) # os, table''))"

definition observe ::
  "fault + 'v outcome list \<times> ('k, 'v) XHashtable option \<Rightarrow> fault + 'v outcome list" where
  "observe r = (case r of Inl f \<Rightarrow> Inl f | Inr (os, table) \<Rightarrow> Inr os)"

definition final_slots ::
  "fault + 'v outcome list \<times> ('k, 'v) XHashtable option \<Rightarrow> ('k option \<times> 'v option \<times> bool) list" where
  "final_slots r =
     (case r of
        Inl f \<Rightarrow> []
      | Inr (os, None) \<Rightarrow> []
      | Inr (os, Some t) \<Rightarrow> map (\<lambda>e. (e_key e, e_value e, e_occupied e)) (entries t))"

definition create_and_run ::
  "nat \<Rightarrow> nat \<Rightarrow> ('k \<Rightarrow> nat) \<Rightarrow> ('k \<Rightarrow> 'k \<Rightarrow> bool) \<Rightarrow> XAllocator \<Rightarrow> ('k, 'v) call list
     \<Rightarrow> fault + 'v outcome list \<times> ('k, 'v) XHashtable option" where
  "create_and_run ks vs hf eqf a cs =
     (case x_hashtable_create_ex ks vs hf eqf a of
        Inl f \<Rightarrow> Inl f
      | Inr table \<Rightarrow> run_calls table cs)"

subsection \<open>Reachable table states\<close>

text \<open>
  The states a table can be in: what \<open>x_hashtable_create_ex\<close> returns, and what a
  call that returns leaves behind. \<open>x_hashtable_get\<close> and \<open>x_hashtable_has\<close> leave
  the table as it is.
\<close>

inductive reachable :: "('k, 'v) XHashtable \<Rightarrow> bool" where
  create: "x_hashtable_create_ex ks vs hf eqf a = Inr (Some t) \<Longrightarrow> reachable t"
| set: "reachable t \<Longrightarrow> x_hashtable_set (Some t) k v = Inr (ok, Some t') \<Longrightarrow> reachable t'"
| get: "reachable t \<Longrightarrow> x_hashtable_get (Some t) k = Inr (found, out_value) \<Longrightarrow> reachable t"
| has: "reachable t \<Longrightarrow> x_hashtable_has (Some t) k = Inr found \<Longrightarrow> reachable t"
| remove: "reachable t \<Longrightarrow> x_hashtable_remove (Some t) k = Inr (found, Some t') \<Longrightarrow> reachable t'"

section \<open>The arena (stdx\_arena.h)\<close>

text \<open>
  The chunk chain is the list of its chunks, head first (the \<open>next\<close> pointers are the
  list); the fields \<open>capacity\<close>, \<open>used\<close> and \<open>data\<close> of a chunk are written
  with the prefix \<open>c_\<close>. \<open>c_data\<close> is the address of a chunk's buffer and an address
  of \<open>0\<close> is the null pointer. \<open>XSystem\<close> is the C
  library's heap: \<open>malloc_result s n sz\<close> is the address its \<open>n\<close>-th \<open>malloc\<close>
  call returns for \<open>sz\<close> bytes.
\<close>

record XArenaChunk =
  c_capacity :: nat
  c_used :: nat
  c_data :: nat

record XArena =
  chunk_size :: nat
  chunks :: "XArenaChunk list"

record XSystem =
  malloc_result :: "nat \<Rightarrow> nat \<Rightarrow> nat"
  n_malloc :: nat
  n_free :: nat

definition sizeof_XArenaChunk :: nat where
  "sizeof_XArenaChunk = 32"

definition sys_malloc :: "XSystem \<Rightarrow> nat \<Rightarrow> nat \<times> XSystem" where
  "sys_malloc s sz = (malloc_result s (n_malloc s) sz, s\<lparr>n_malloc := Suc (n_malloc s)\<rparr>)"

definition sys_free :: "XSystem \<Rightarrow> XSystem" where
  "sys_free s = s\<lparr>n_free := Suc (n_free s)\<rparr>"

definition x_arena_chunk_create :: "nat \<Rightarrow> XSystem \<Rightarrow> XArenaChunk option \<times> XSystem" where
  "x_arena_chunk_create sz s =
     (case sys_malloc s sizeof_XArenaChunk of
        (chunk, s1) \<Rightarrow>
          if chunk = 0 then (None, s1)
          else (case sys_malloc s1 sz of
            (d, s2) \<Rightarrow>
              if d \<noteq> 0 then (Some \<lparr>c_capacity = sz, c_used = 0, c_data = d\<rparr>, s2)
              else (None, sys_free s2)))"

text \<open>
  The scan of \<open>x_arena_alloc\<close> over the chain: the pointer served and the chain with
  the serving chunk bumped, or \<open>None\<close> when the loop runs off the end.
\<close>

fun alloc_scan :: "XArenaChunk list \<Rightarrow> nat \<Rightarrow> (nat \<times> XArenaChunk list) option" where
  "alloc_scan [] sz = None"
| "alloc_scan (chunk # rest) sz =
     (if sz \<le> size_sub (c_capacity chunk) (c_used chunk) then
        Some (c_data chunk + c_used chunk, chunk\<lparr>c_used := size_add (c_used chunk) sz\<rparr> # rest)
      else (case alloc_scan rest sz of
              None \<Rightarrow> None
            | Some (p, rest') \<Rightarrow> Some (p, chunk # rest')))"

definition x_arena_alloc :: "XArena option \<Rightarrow> nat \<Rightarrow> XSystem \<Rightarrow> nat \<times> XArena option \<times> XSystem" where
  "x_arena_alloc arena sz s =
     (case arena of
        None \<Rightarrow> (0, None, s)
      | Some a \<Rightarrow>
          if sz = 0 then (0, Some a, s)
          else (case alloc_scan (chunks a) sz of
                  Some (p, cs) \<Rightarrow> (p, Some (a\<lparr>chunks := cs\<rparr>), s)
                | None \<Rightarrow>
                    (case x_arena_chunk_create (if chunk_size a < sz then sz else chunk_size a) s of
                       (None, s') \<Rightarrow> (0, Some a, s')
                     | (Some new_chunk, s') \<Rightarrow>
                         (c_data new_chunk,
                          Some (a\<lparr>chunks := new_chunk\<lparr>c_used := sz\<rparr> # chunks a\<rparr>), s'))))"

fun reset_chunks :: "XArenaChunk list \<Rightarrow> XArenaChunk list" where
  "reset_chunks [] = []"
| "reset_chunks (chunk # rest) = chunk\<lparr>c_used := 0\<rparr> # reset_chunks rest"

definition x_arena_reset :: "XArena option \<Rightarrow> XArena option" where
  "x_arena_reset arena =
     (case arena of
        None \<Rightarrow> None
      | Some a \<Rightarrow> Some (a\<lparr>chunks := reset_chunks (chunks a)\<rparr>))"

section \<open>Example tables\<close>

text \<open>
  Tables of natural-number keys and values, hashed by their own value and compared by
  equality, over an allocator that always succeeds (\<open>heap0\<close>) or one that serves two
  requests and then fails (\<open>two_then_fail\<close>).
\<close>

definition nat_hash :: "nat \<Rightarrow> nat" where
  "nat_hash k = k"

definition nat_eq :: "nat \<Rightarrow> nat \<Rightarrow> bool" where
  "nat_eq a b = (a = b)"

definition always_ok :: "nat \<Rightarrow> nat \<Rightarrow> bool" where
  "always_ok n sz = True"

definition two_then_fail :: "nat \<Rightarrow> nat \<Rightarrow> bool" where
  "two_then_fail n sz = (n < 2)"

definition heap0 :: XAllocator where
  "heap0 = \<lparr>will_succeed = always_ok, n_allocs = 0, n_frees = 0\<rparr>"

definition empty_table :: "(nat, nat) XHashtable" where
  "empty_table =
     \<lparr>key_size = 8, value_size = 8, count = 0, capacity = 16,
      entries = replicate 16 zero_entry,
      hash_fn = nat_hash, eq_fn = nat_eq,
      allocator = \<lparr>will_succeed = always_ok, n_allocs = 2, n_frees = 0\<rparr>\<rparr>"

definition exhausted_table :: "(nat, nat) XHashtable" where
  "exhausted_table =
     \<lparr>key_size = 8, value_size = 8, count = 0, capacity = 16,
      entries = replicate 16 zero_entry,
      hash_fn = nat_hash, eq_fn = nat_eq,
      allocator = \<lparr>will_succeed = two_then_fail, n_allocs = 2, n_frees = 0\<rparr>\<rparr>"

text \<open>A table of two slots, both occupied, that no rehash policy would let arise.\<close>

definition full_table :: "(nat, nat) XHashtable" where
  "full_table =
     \<lparr>key_size = 8, value_size = 8, count = 2, capacity = 2,
      entries = [\<lparr>e_key = Some 2, e_value = Some 20, e_occupied = True\<rparr>,
                 \<lparr>e_key = Some 3, e_value = Some 30, e_occupied = True\<rparr>],
      hash_fn = nat_hash, eq_fn = nat_eq, allocator = heap0\<rparr>"

text \<open>
  Sequences of sets: \<open>crossing_ops\<close> inserts fourteen keys, three of them into the same
  bucket, and sets the first key again; \<open>distinct_ops\<close> are its fourteen first sets;
  \<open>twelve_ops\<close> fills a new table up to the load factor.
\<close>

definition crossing_ops :: "(nat \<times> nat) list" where
  "crossing_ops =
     [(0, 10), (16, 11), (32, 12), (1, 1), (2, 2), (3, 3), (4, 4), (5, 5), (6, 6), (7, 7),
      (8, 8), (9, 9), (10, 100), (11, 110), (0, 99)]"


definition twelve_ops :: "(nat \<times> nat) list" where
  "twelve_ops =
     [(0, 10), (16, 11), (32, 12), (1, 1), (2, 2), (3, 3), (4, 4), (5, 5), (6, 6), (7, 7),
      (8, 8), (9, 9)]"

text \<open>
  Arenas, and two behaviours of the C library's heap: one that has no memory left
  (\<open>oom_malloc\<close>) and one that hands out a fresh page for every request
  (\<open>bump_malloc\<close>).
\<close>

definition oom_malloc :: "nat \<Rightarrow> nat \<Rightarrow> nat" where
  "oom_malloc n sz = 0"

definition bump_malloc :: "nat \<Rightarrow> nat \<Rightarrow> nat" where
  "bump_malloc n sz = 4096 * (n + 1)"

definition full_arena :: XArena where
  "full_arena = \<lparr>chunk_size = 64, chunks = [\<lparr>c_capacity = 64, c_used = 60, c_data = 4096\<rparr>]\<rparr>"

definition two_chunk_arena :: XArena where
  "two_chunk_arena =
     \<lparr>chunk_size = 64,
      chunks = [\<lparr>c_capacity = 64, c_used = 60, c_data = 8192\<rparr>,
                \<lparr>c_capacity = 64, c_used = 16, c_data = 4096\<rparr>]\<rparr>"

section \<open>Invariants and specification functions\<close>

text \<open>
  \<open>wf_struct\<close>: the slot array has \<open>capacity\<close> entries, at least one, and an
  occupied slot holds both of its blocks. \<open>probe_pos t k j\<close> is the \<open>j\<close>-th slot
  index the probe loop visits for the key \<open>k\<close>; \<open>probe_passes t k j\<close> says that
  the loop passes the first \<open>j\<close> of them: they are occupied by other keys.
\<close>

definition wf_struct :: "('k, 'v) XHashtable \<Rightarrow> bool" where
  "wf_struct t =
     (0 < capacity t \<and> length (entries t) = capacity t \<and>
      (\<forall>e \<in> set (entries t). e_occupied e \<longrightarrow> e_key e \<noteq> None \<and> e_value e \<noteq> None))"

definition slot_matches :: "('k, 'v) XHashtable \<Rightarrow> 'k \<Rightarrow> nat \<Rightarrow> bool" where
  "slot_matches t k i =
     (e_occupied (entries t ! i) \<and>
      (case e_key (entries t ! i) of None \<Rightarrow> False | Some k' \<Rightarrow> eq_fn t k k'))"

definition probe_pos :: "('k, 'v) XHashtable \<Rightarrow> 'k \<Rightarrow> nat \<Rightarrow> nat" where
  "probe_pos t k j = (hash_fn t k + j) mod capacity t"

definition probe_passes :: "('k, 'v) XHashtable \<Rightarrow> 'k \<Rightarrow> nat \<Rightarrow> bool" where
  "probe_passes t k j =
     (\<forall>j'<j. e_occupied (entries t ! probe_pos t k j') \<and> \<not> slot_matches t k (probe_pos t k j'))"

text \<open>
  The occupancy invariant \<open>count_inv\<close>: count is the number of occupied slots and is
  below the capacity, which is at least the initial one.
\<close>

definition n_occupied :: "('k, 'v) XHashtable \<Rightarrow> nat" where
  "n_occupied t = length (filter e_occupied (entries t))"

definition count_inv :: "('k, 'v) XHashtable \<Rightarrow> bool" where
  "count_inv t =
     (wf_struct t \<and> 16 \<le> capacity t \<and> count t = n_occupied t \<and> count t < capacity t)"

text \<open>An allocator that serves every request.\<close>

definition never_fails :: "XAllocator \<Rightarrow> bool" where
  "never_fails a = (\<forall>n sz. will_succeed a n sz)"

text \<open>
  \<open>consistent hf eqf\<close>: the equality function is an equivalence and equal keys have
  equal hashes. \<open>table_inv\<close> adds to the occupancy invariant that no two occupied
  slots hold equal keys (\<open>keys_distinct\<close>) and that every stored key is reached from its
  bucket through occupied slots only (\<open>chain_ok\<close>). \<open>holds t q w\<close> says that
  some slot of \<open>t\<close> holds a key equal to \<open>q\<close> with the value \<open>w\<close>, and
  \<open>present t q\<close> that some slot holds a key equal to \<open>q\<close>.
\<close>

definition consistent :: "('k \<Rightarrow> nat) \<Rightarrow> ('k \<Rightarrow> 'k \<Rightarrow> bool) \<Rightarrow> bool" where
  "consistent hf eqf =
     ((\<forall>a. eqf a a) \<and> (\<forall>a b. eqf a b \<longrightarrow> eqf b a)
      \<and> (\<forall>a b c. eqf a b \<longrightarrow> eqf b c \<longrightarrow> eqf a c)
      \<and> (\<forall>a b. eqf a b \<longrightarrow> hf a = hf b))"

definition keys_distinct :: "('k, 'v) XHashtable \<Rightarrow> bool" where
  "keys_distinct t =
     (\<forall>i<capacity t. \<forall>i'<capacity t. \<forall>a b.
        e_occupied (entries t ! i) \<and> e_occupied (entries t ! i')
        \<and> e_key (entries t ! i) = Some a \<and> e_key (entries t ! i') = Some b \<and> eq_fn t a b
        \<longrightarrow> i = i')"

definition chain_ok :: "('k, 'v) XHashtable \<Rightarrow> bool" where
  "chain_ok t =
     (\<forall>i<capacity t. \<forall>a.
        e_occupied (entries t ! i) \<and> e_key (entries t ! i) = Some a
        \<longrightarrow> (\<exists>j<capacity t. probe_pos t a j = i
               \<and> (\<forall>j'<j. e_occupied (entries t ! probe_pos t a j'))))"

definition table_inv :: "('k, 'v) XHashtable \<Rightarrow> bool" where
  "table_inv t =
     (wf_struct t \<and> count t = n_occupied t \<and> count t < capacity t
      \<and> keys_distinct t \<and> chain_ok t)"

definition holds :: "('k, 'v) XHashtable \<Rightarrow> 'k \<Rightarrow> 'v \<Rightarrow> bool" where
  "holds t q w = (\<exists>i<capacity t. slot_matches t q i \<and> e_value (entries t ! i) = Some w)"

definition present :: "('k, 'v) XHashtable \<Rightarrow> 'k \<Rightarrow> bool" where
  "present t q = (\<exists>i<capacity t. slot_matches t q i)"

text \<open>
  The value of the most recent pair of a sequence of sets whose key equals \<open>q\<close>, the
  sequence read in the order of the calls; and sequences of keys that are pairwise distinct
  under the equality function.
\<close>

fun latest :: "('k \<Rightarrow> 'k \<Rightarrow> bool) \<Rightarrow> ('k \<times> 'v) list \<Rightarrow> 'k \<Rightarrow> 'v option" where
  "latest eqf [] q = None"
| "latest eqf ((k, v) # ops) q =
     (case latest eqf ops q of
        Some w \<Rightarrow> Some w
      | None \<Rightarrow> if eqf q k then Some v else None)"


text \<open>
  The invariant of the chunks of an arena: \<open>used \<le> capacity\<close>, and a capacity is a
  \<open>size_t\<close>.
\<close>

definition arena_ok :: "XArena \<Rightarrow> bool" where
  "arena_ok a = (\<forall>c \<in> set (chunks a). c_used c \<le> c_capacity c \<and> c_capacity c \<le> SIZE_MAX)"

section \<open>Probe sequences\<close>

lemma create_empty_table: "x_hashtable_create_ex 8 8 nat_hash nat_eq heap0 = Inr (Some empty_table)"
  by (simp add: x_hashtable_create_ex_def stdx_alloc_def heap0_def always_ok_def empty_table_def
      INITIAL_CAPACITY_def)

lemma probe_pos_inj:
  fixes h c :: nat
  assumes "j < c" "j' < c" "(h + j) mod c = (h + j') mod c"
  shows "j = j'"
proof -
  have aux: "a = b" if "a \<le> b" "b < c" "(h + a) mod c = (h + b) mod c" for a b
  proof -
    from that have "c dvd (h + b) - (h + a)"
      by (subst mod_eq_dvd_iff_nat [symmetric]) auto
    then have "c dvd b - a" by simp
    moreover have "b - a < c" using that by simp
    ultimately have "b - a = 0" by (meson dvd_imp_le not_less zero_less_iff_neq_zero)
    with that show ?thesis by simp
  qed
  show ?thesis
  proof (cases "j \<le> j'")
    case True
    then show ?thesis using aux [of j j'] assms by simp
  next
    case False
    then show ?thesis using aux [of j' j] assms by simp
  qed
qed

lemma probe_pos_surj:
  fixes h c i :: nat
  assumes "i < c"
  shows "\<exists>j<c. (h + j) mod c = i"
proof -
  define r where "r = h mod c"
  have rc: "r < c" using assms by (simp add: r_def)
  define j where "j = (i + c - r) mod c"
  have "j < c" using assms by (simp add: j_def)
  moreover have "(h + j) mod c = i"
  proof -
    have "(h + j) mod c = (r + j) mod c" by (simp add: r_def mod_add_left_eq)
    also have "\<dots> = (r + (i + c - r)) mod c" by (simp add: j_def mod_add_right_eq)
    also have "r + (i + c - r) = i + c" using rc by simp
    also have "(i + c) mod c = i" using assms by simp
    finally show ?thesis .
  qed
  ultimately show ?thesis by blast
qed

lemma probe_pos_less: "0 < capacity t \<Longrightarrow> probe_pos t k j < capacity t"
  by (simp add: probe_pos_def)

lemma probe_pos_Suc: "(probe_pos t k j + 1) mod capacity t = probe_pos t k (Suc j)"
  by (simp add: probe_pos_def mod_Suc_eq)

lemma probe_pos_Suc': "Suc (probe_pos t k j) mod capacity t = probe_pos t k (Suc j)"
  by (simp add: probe_pos_def mod_Suc_eq)

lemma probe_pos_0: "probe_pos t k 0 = hash_fn t k mod capacity t"
  by (simp add: probe_pos_def)

lemma probe_pos_eq_iff:
  "j < capacity t \<Longrightarrow> j' < capacity t \<Longrightarrow> probe_pos t k j = probe_pos t k j' \<longleftrightarrow> j = j'"
  unfolding probe_pos_def using probe_pos_inj by blast

lemma wf_struct_key:
  "wf_struct t \<Longrightarrow> i < capacity t \<Longrightarrow> e_occupied (entries t ! i) \<Longrightarrow> \<exists>k'. e_key (entries t ! i) = Some k'"
  by (auto simp: wf_struct_def)

lemma wf_struct_value:
  "wf_struct t \<Longrightarrow> i < capacity t \<Longrightarrow> e_occupied (entries t ! i) \<Longrightarrow> \<exists>v. e_value (entries t ! i) = Some v"
  by (auto simp: wf_struct_def)

lemma probe_loop_pass_one:
  assumes wf: "wf_struct t" and j: "Suc j < capacity t"
    and occ: "e_occupied (entries t ! probe_pos t k j)"
    and nm: "\<not> slot_matches t k (probe_pos t k j)"
  shows "probe_loop t k (probe_pos t k j) = probe_loop t k (probe_pos t k (Suc j))"
proof -
  have c: "0 < capacity t" using wf by (simp add: wf_struct_def)
  have len: "probe_pos t k j < length (entries t)"
    using wf probe_pos_less [OF c] by (simp add: wf_struct_def)
  obtain k' where k': "e_key (entries t ! probe_pos t k j) = Some k'"
    using wf_struct_key [OF wf probe_pos_less [OF c] occ] by blast
  have ne: "\<not> eq_fn t k k'" using nm occ k' by (simp add: slot_matches_def)
  have "probe_pos t k (Suc j) \<noteq> probe_pos t k 0"
    using probe_pos_eq_iff [of "Suc j" t 0 k] j by simp
  then have nstart: "(probe_pos t k j + 1) mod capacity t \<noteq> hash_fn t k mod capacity t"
    by (simp add: probe_pos_Suc' probe_pos_0)
  show ?thesis
    apply (subst probe_loop.simps)
    using len occ k' ne c nstart by (simp add: probe_pos_Suc')
qed

lemma probe_loop_skip:
  assumes wf: "wf_struct t"
  shows "j < capacity t \<Longrightarrow> probe_passes t k j
    \<Longrightarrow> probe_loop t k (probe_pos t k 0) = probe_loop t k (probe_pos t k j)"
proof (induction j)
  case 0
  then show ?case by simp
next
  case (Suc j)
  have "probe_passes t k j" using Suc.prems by (simp add: probe_passes_def)
  then have "probe_loop t k (probe_pos t k 0) = probe_loop t k (probe_pos t k j)"
    using Suc by simp
  also have "\<dots> = probe_loop t k (probe_pos t k (Suc j))"
    using Suc.prems by (intro probe_loop_pass_one [OF wf]) (auto simp: probe_passes_def)
  finally show ?case .
qed

lemma probe_index_empty:
  assumes wf: "wf_struct t" and j: "j < capacity t" and pass: "probe_passes t k j"
    and emp: "\<not> e_occupied (entries t ! probe_pos t k j)"
  shows "probe_index t k = Inr (probe_pos t k j, False)"
proof -
  have c: "0 < capacity t" using wf by (simp add: wf_struct_def)
  have len: "probe_pos t k j < length (entries t)"
    using wf probe_pos_less [OF c] by (simp add: wf_struct_def)
  have "probe_index t k = probe_loop t k (probe_pos t k 0)"
    using c by (simp add: probe_index_def probe_pos_0)
  also have "\<dots> = probe_loop t k (probe_pos t k j)"
    by (rule probe_loop_skip [OF wf j pass])
  also have "\<dots> = Inr (probe_pos t k j, False)"
    by (subst probe_loop.simps) (use len emp in simp)
  finally show ?thesis .
qed

lemma probe_index_match:
  assumes wf: "wf_struct t" and j: "j < capacity t" and pass: "probe_passes t k j"
    and m: "slot_matches t k (probe_pos t k j)"
  shows "probe_index t k = Inr (probe_pos t k j, True)"
proof -
  have c: "0 < capacity t" using wf by (simp add: wf_struct_def)
  have len: "probe_pos t k j < length (entries t)"
    using wf probe_pos_less [OF c] by (simp add: wf_struct_def)
  have "probe_index t k = probe_loop t k (probe_pos t k 0)"
    using c by (simp add: probe_index_def probe_pos_0)
  also have "\<dots> = probe_loop t k (probe_pos t k j)"
    by (rule probe_loop_skip [OF wf j pass])
  also have "\<dots> = Inr (probe_pos t k j, True)"
    by (subst probe_loop.simps) (use len m in \<open>auto simp: slot_matches_def split: option.splits\<close>)
  finally show ?thesis .
qed

lemma probe_index_full:
  assumes wf: "wf_struct t" and pass: "probe_passes t k (capacity t)"
  shows "probe_index t k = Inr (probe_pos t k 0, False)"
proof -
  have c: "0 < capacity t" using wf by (simp add: wf_struct_def)
  define j where "j = capacity t - 1"
  have j: "j < capacity t" "Suc j = capacity t" using c by (simp_all add: j_def)
  have len: "probe_pos t k j < length (entries t)"
    using wf probe_pos_less [OF c] by (simp add: wf_struct_def)
  have pj: "probe_passes t k j" using pass j by (simp add: probe_passes_def)
  have occ: "e_occupied (entries t ! probe_pos t k j)"
    and nm: "\<not> slot_matches t k (probe_pos t k j)"
    using pass j by (simp_all add: probe_passes_def)
  obtain k' where k': "e_key (entries t ! probe_pos t k j) = Some k'"
    using wf_struct_key [OF wf probe_pos_less [OF c] occ] by blast
  have ne: "\<not> eq_fn t k k'" using nm occ k' by (simp add: slot_matches_def)
  have "probe_pos t k (Suc j) = hash_fn t k mod capacity t"
    using j by (simp add: probe_pos_def)
  then have wrap: "(probe_pos t k j + 1) mod capacity t = hash_fn t k mod capacity t"
    by (simp add: probe_pos_Suc')
  have "probe_index t k = probe_loop t k (probe_pos t k 0)"
    using c by (simp add: probe_index_def probe_pos_0)
  also have "\<dots> = probe_loop t k (probe_pos t k j)"
    by (rule probe_loop_skip [OF wf j(1) pj])
  also have "\<dots> = Inr (probe_pos t k 0, False)"
    apply (subst probe_loop.simps)
    using len occ k' ne c wrap by (simp add: probe_pos_0)
  finally show ?thesis .
qed

text \<open>Every probe ends in one of the three ways above.\<close>

lemma probe_index_cases:
  assumes wf: "wf_struct t"
  obtains (empty) j where "j < capacity t" "probe_passes t k j"
      "\<not> e_occupied (entries t ! probe_pos t k j)" "probe_index t k = Inr (probe_pos t k j, False)"
  | (match) j where "j < capacity t" "probe_passes t k j"
      "slot_matches t k (probe_pos t k j)" "probe_index t k = Inr (probe_pos t k j, True)"
  | (full) "probe_passes t k (capacity t)" "probe_index t k = Inr (probe_pos t k 0, False)"
proof (cases "probe_passes t k (capacity t)")
  case True
  then show ?thesis using full probe_index_full [OF wf] by blast
next
  case False
  define stop where "stop j \<longleftrightarrow> \<not> e_occupied (entries t ! probe_pos t k j) \<or> slot_matches t k (probe_pos t k j)" for j
  from False obtain j0 where "j0 < capacity t" "stop j0"
    by (auto simp: probe_passes_def stop_def)
  define j where "j = (LEAST j. stop j)"
  have sj: "stop j" unfolding j_def using \<open>stop j0\<close> by (rule LeastI)
  have jle: "j \<le> j0" unfolding j_def using \<open>stop j0\<close> by (rule Least_le)
  have jc: "j < capacity t" using jle \<open>j0 < capacity t\<close> by simp
  have "\<not> stop j'" if "j' < j" for j'
    using that not_less_Least unfolding j_def by blast
  then have pass: "probe_passes t k j"
    by (auto simp: probe_passes_def stop_def)
  show ?thesis
  proof (cases "e_occupied (entries t ! probe_pos t k j)")
    case True
    with sj have "slot_matches t k (probe_pos t k j)" by (simp add: stop_def)
    then show ?thesis using match jc pass probe_index_match [OF wf jc pass] by blast
  next
    case False
    then show ?thesis using empty jc pass probe_index_empty [OF wf jc pass] by blast
  qed
qed

section \<open>The occupancy invariant\<close>

lemma length_filter_update_gain:
  "i < length es \<Longrightarrow> \<not> P (es ! i) \<Longrightarrow> P e
     \<Longrightarrow> length (filter P (es[i := e])) = Suc (length (filter P es))"
proof (induction es arbitrary: i)
  case Nil
  then show ?case by simp
next
  case (Cons x es)
  then show ?case by (cases i) auto
qed

lemma length_filter_update_same:
  "i < length es \<Longrightarrow> P e = P (es ! i)
     \<Longrightarrow> length (filter P (es[i := e])) = length (filter P es)"
proof (induction es arbitrary: i)
  case Nil
  then show ?case by simp
next
  case (Cons x es)
  then show ?case by (cases i) auto
qed

lemma length_filter_update_lose:
  "i < length es \<Longrightarrow> P (es ! i) \<Longrightarrow> \<not> P e
     \<Longrightarrow> Suc (length (filter P (es[i := e]))) = length (filter P es)"
proof (induction es arbitrary: i)
  case Nil
  then show ?case by simp
next
  case (Cons x es)
  then show ?case by (cases i) auto
qed

lemma length_filter_full:
  "\<forall>i<length es. P (es ! i) \<Longrightarrow> length (filter P es) = length es"
  by (simp add: all_set_conv_all_nth)

lemma n_occupied_le: "n_occupied t \<le> length (entries t)"
  by (simp add: n_occupied_def)

lemma set_store_cases:
  assumes "x_hashtable_set_store t k v = Inr t'"
  obtains (update) i where "probe_index t k = Inr (i, True)" "i < length (entries t)"
      "t' = t\<lparr>entries := (entries t)[i := (entries t ! i)\<lparr>e_value := Some v\<rparr>]\<rparr>"
  | (insert) i a' where "probe_index t k = Inr (i, False)" "i < length (entries t)"
      "t' = t\<lparr>entries := (entries t)[i := \<lparr>e_key = Some k, e_value = Some v, e_occupied = True\<rparr>],
              count := count t + 1, allocator := a'\<rparr>"
      "will_succeed a' = will_succeed (allocator t)"
  using assms
  by (auto simp: x_hashtable_set_store_def stdx_alloc_def
      split: sum.splits prod.splits if_splits option.splits)

lemma probe_passes_full_occupied:
  assumes "0 < capacity t" "probe_passes t k (capacity t)" "i < capacity t"
  shows "e_occupied (entries t ! i)"
proof -
  obtain j where "j < capacity t" "(hash_fn t k + j) mod capacity t = i"
    using probe_pos_surj [OF assms(3)] by blast
  then show ?thesis using assms(2) by (auto simp: probe_passes_def probe_pos_def)
qed

lemma probe_index_result:
  assumes wf: "wf_struct t" and res: "probe_index t k = Inr (i, f)"
  shows "i < capacity t"
    and "f \<Longrightarrow> slot_matches t k i"
    and "\<not> f \<Longrightarrow> \<not> e_occupied (entries t ! i) \<or> (\<forall>i'<capacity t. e_occupied (entries t ! i'))"
proof -
  have c: "0 < capacity t" using wf by (simp add: wf_struct_def)
  show "i < capacity t"
    using res probe_pos_less [OF c] by (cases rule: probe_index_cases [OF wf, of k]) auto
  show "slot_matches t k i" if f
    using res that by (cases rule: probe_index_cases [OF wf, of k]) auto
  show "\<not> e_occupied (entries t ! i) \<or> (\<forall>i'<capacity t. e_occupied (entries t ! i'))" if "\<not> f"
    using res that probe_passes_full_occupied [OF c]
    by (cases rule: probe_index_cases [OF wf, of k]) auto
qed

lemma wf_struct_update:
  assumes "wf_struct t" "i < length (entries t)"
    and "e_occupied e \<Longrightarrow> e_key e \<noteq> None \<and> e_value e \<noteq> None"
  shows "wf_struct (t\<lparr>entries := (entries t)[i := e]\<rparr>)"
  using assms set_update_subset_insert [of "entries t" i e]
  by (auto simp: wf_struct_def)

lemma wf_struct_frame [simp]:
  "wf_struct (t\<lparr>allocator := a\<rparr>) = wf_struct t"
  "wf_struct (t\<lparr>count := n\<rparr>) = wf_struct t"
  by (simp_all add: wf_struct_def)

lemma n_occupied_frame [simp]:
  "n_occupied (t\<lparr>allocator := a\<rparr>) = n_occupied t"
  "n_occupied (t\<lparr>count := n\<rparr>) = n_occupied t"
  by (simp_all add: n_occupied_def)

lemma not_full_has_empty:
  assumes "length (entries t) = capacity t" "n_occupied t < capacity t"
  shows "\<not> (\<forall>i<capacity t. e_occupied (entries t ! i))"
proof
  assume "\<forall>i<capacity t. e_occupied (entries t ! i)"
  then have "n_occupied t = capacity t"
    using assms(1) length_filter_full [of "entries t" e_occupied] by (simp add: n_occupied_def)
  with assms(2) show False by simp
qed

lemma set_store_oracle:
  assumes "x_hashtable_set_store t k v = Inr t'"
  shows "will_succeed (allocator t') = will_succeed (allocator t)"
  using assms by (cases rule: set_store_cases) simp_all

lemma set_store_weak:
  assumes wf: "wf_struct t" and cnt: "count t = n_occupied t" and room: "count t < capacity t"
    and res: "x_hashtable_set_store t k v = Inr t'"
  shows "wf_struct t' \<and> count t' = n_occupied t' \<and> capacity t' = capacity t
    \<and> count t' \<le> count t + 1 \<and> hash_fn t' = hash_fn t \<and> eq_fn t' = eq_fn t"
  using res
proof (cases rule: set_store_cases)
  case (update i)
  have m: "slot_matches t k i" using probe_index_result(2) [OF wf update(1)] by simp
  let ?e = "(entries t ! i)\<lparr>e_value := Some v\<rparr>"
  have "wf_struct (t\<lparr>entries := (entries t)[i := ?e]\<rparr>)"
    using wf update(2) by (intro wf_struct_update) (auto simp: wf_struct_def)
  moreover have "n_occupied (t\<lparr>entries := (entries t)[i := ?e]\<rparr>) = n_occupied t"
    using update(2) by (simp add: n_occupied_def length_filter_update_same)
  ultimately show ?thesis using update(3) cnt by simp
next
  case (insert i a')
  have len: "length (entries t) = capacity t" using wf by (simp add: wf_struct_def)
  have "\<not> e_occupied (entries t ! i)"
    using probe_index_result(3) [OF wf insert(1)] not_full_has_empty [OF len] cnt room by auto
  then have "n_occupied (t\<lparr>entries := (entries t)[i :=
      \<lparr>e_key = Some k, e_value = Some v, e_occupied = True\<rparr>]\<rparr>) = Suc (n_occupied t)"
    using insert(2) by (simp add: n_occupied_def length_filter_update_gain)
  moreover have "wf_struct (t\<lparr>entries := (entries t)[i :=
      \<lparr>e_key = Some k, e_value = Some v, e_occupied = True\<rparr>]\<rparr>)"
    using wf insert(2) by (intro wf_struct_update) auto
  ultimately show ?thesis using insert(3) cnt by (simp add: wf_struct_def n_occupied_def)
qed

text \<open>An induction rule for the loop of \<open>x_hashtable_rehash\<close>.\<close>

lemma rehash_loop_rule:
  assumes res: "rehash_loop old old_cap i t = Inr t'"
    and start: "Q i t"
    and skip: "\<And>i t. i < old_cap \<Longrightarrow> i < length old \<Longrightarrow> Q i t \<Longrightarrow> \<not> e_occupied (old ! i)
      \<Longrightarrow> Q (Suc i) t"
    and step: "\<And>i t k v t1. i < old_cap \<Longrightarrow> i < length old \<Longrightarrow> Q i t \<Longrightarrow> e_occupied (old ! i)
      \<Longrightarrow> e_key (old ! i) = Some k \<Longrightarrow> e_value (old ! i) = Some v
      \<Longrightarrow> x_hashtable_set_nonnull t k v = Inr t1
      \<Longrightarrow> Q (Suc i) (t1\<lparr>allocator := stdx_free (stdx_free (allocator t1))\<rparr>)"
    and le: "i \<le> old_cap"
  shows "\<exists>t''. t' = t''\<lparr>allocator := stdx_free (allocator t'')\<rparr> \<and> Q old_cap t''"
  using res start le
proof (induction "old_cap - i" arbitrary: i t)
  case 0
  then have "i = old_cap" by simp
  with 0 show ?case by (auto simp: rehash_loop.simps [of old old_cap old_cap])
next
  case (Suc n)
  then have lt: "i < old_cap" by simp
  have n: "n = old_cap - Suc i" using Suc.hyps(2) by simp
  from Suc.prems(1) lt have len: "i < length old"
    by (subst (asm) rehash_loop.simps) (auto split: if_splits)
  show ?case
  proof (cases "e_occupied (old ! i)")
    case False
    with Suc.prems(1) lt len have "rehash_loop old old_cap (Suc i) t = Inr t'"
      by (subst (asm) rehash_loop.simps) simp
    moreover have "Q (Suc i) t" using skip [OF lt len Suc.prems(2) False] .
    ultimately show ?thesis using Suc.hyps(1) [OF n] lt by simp
  next
    case True
    with Suc.prems(1) lt len obtain k v t1 where
      kv: "e_key (old ! i) = Some k" "e_value (old ! i) = Some v"
      and s: "x_hashtable_set_nonnull t k v = Inr t1"
      and r: "rehash_loop old old_cap (Suc i) (t1\<lparr>allocator := stdx_free (stdx_free (allocator t1))\<rparr>) = Inr t'"
      by (subst (asm) rehash_loop.simps) (auto split: option.splits sum.splits)
    have "Q (Suc i) (t1\<lparr>allocator := stdx_free (stdx_free (allocator t1))\<rparr>)"
      using step [OF lt len Suc.prems(2) True kv s] .
    then show ?thesis using Suc.hyps(1) [OF n r] lt by simp
  qed
qed

lemma wf_struct_fresh:
  "0 < c \<Longrightarrow> wf_struct (t\<lparr>capacity := c, entries := replicate c zero_entry\<rparr>)"
  by (auto simp: wf_struct_def zero_entry_def)

lemma n_occupied_fresh:
  "n_occupied (t\<lparr>capacity := c, entries := replicate c zero_entry\<rparr>) = 0"
  by (simp add: n_occupied_def zero_entry_def)

lemma rehash_weak:
  fixes t :: "('k, 'v) XHashtable"
  assumes wf: "wf_struct t" and res: "x_hashtable_rehash t = Inr t'"
  shows "wf_struct t' \<and> count t' = n_occupied t' \<and> capacity t' = 2 * capacity t
    \<and> count t' \<le> capacity t \<and> hash_fn t' = hash_fn t \<and> eq_fn t' = eq_fn t
    \<and> will_succeed (allocator t') = will_succeed (allocator t)"
proof -
  define Q where "Q i tn \<longleftrightarrow> wf_struct tn \<and> count tn = n_occupied tn \<and> count tn \<le> i
      \<and> capacity tn = 2 * capacity t \<and> hash_fn tn = hash_fn t \<and> eq_fn tn = eq_fn t
      \<and> will_succeed (allocator tn) = will_succeed (allocator t)"
    for i and tn :: "('k, 'v) XHashtable"
  have c: "0 < capacity t" using wf by (simp add: wf_struct_def)
  obtain a1 where loop: "rehash_loop (entries t) (capacity t) 0
      (t\<lparr>capacity := capacity t * 2, entries := replicate (capacity t * 2) zero_entry,
         count := 0, allocator := a1\<rparr>) = Inr t'"
    and a1: "will_succeed a1 = will_succeed (allocator t)"
    using res by (subst (asm) x_hashtable_rehash.simps)
      (auto simp: stdx_alloc_def split: prod.splits if_splits)
  have start: "Q 0 (t\<lparr>capacity := capacity t * 2, entries := replicate (capacity t * 2) zero_entry,
         count := 0, allocator := a1\<rparr>)"
    unfolding Q_def using c a1 by (simp add: wf_struct_fresh n_occupied_fresh)
  have "\<exists>t''. t' = t''\<lparr>allocator := stdx_free (allocator t'')\<rparr> \<and> Q (capacity t) t''"
  proof (rule rehash_loop_rule [OF loop, where Q = Q, OF start])
    fix i and tn :: "('k, 'v) XHashtable"
    assume "Q i tn"
    then show "Q (Suc i) tn" by (simp add: Q_def)
  next
    fix i k v and tn t1 :: "('k, 'v) XHashtable"
    assume i: "i < capacity t" and q: "Q i tn"
      and s: "x_hashtable_set_nonnull tn k v = Inr t1"
    have "\<not> load_exceeded tn" using q i by (simp add: Q_def load_exceeded_def)
    with s have "x_hashtable_set_store tn k v = Inr t1"
      by (simp add: x_hashtable_set_nonnull.simps)
    moreover note \<open>x_hashtable_set_store tn k v = Inr t1\<close>
    moreover have "count tn < capacity tn" using q i by (simp add: Q_def)
    ultimately have "wf_struct t1 \<and> count t1 = n_occupied t1 \<and> capacity t1 = capacity tn
        \<and> count t1 \<le> count tn + 1 \<and> hash_fn t1 = hash_fn tn \<and> eq_fn t1 = eq_fn tn"
      using q by (intro set_store_weak) (simp_all add: Q_def)
    then show "Q (Suc i) (t1\<lparr>allocator := stdx_free (stdx_free (allocator t1))\<rparr>)"
      using q set_store_oracle [OF \<open>x_hashtable_set_store tn k v = Inr t1\<close>]
      by (simp add: Q_def stdx_free_def)
  qed simp
  then show ?thesis by (auto simp: Q_def stdx_free_def)
qed

lemma set_nonnull_weak:
  assumes inv: "count_inv t" and res: "x_hashtable_set_nonnull t k v = Inr t'"
  shows "count_inv t' \<and> hash_fn t' = hash_fn t \<and> eq_fn t' = eq_fn t
    \<and> will_succeed (allocator t') = will_succeed (allocator t)"
proof (cases "load_exceeded t")
  case True
  with res obtain t1 where r: "x_hashtable_rehash t = Inr t1"
    and s: "x_hashtable_set_store t1 k v = Inr t'"
    by (auto simp: x_hashtable_set_nonnull.simps split: sum.splits)
  have wf: "wf_struct t" and c16: "16 \<le> capacity t" using inv by (simp_all add: count_inv_def)
  note r1 = rehash_weak [OF wf r]
  have "wf_struct t' \<and> count t' = n_occupied t' \<and> capacity t' = capacity t1
      \<and> count t' \<le> count t1 + 1 \<and> hash_fn t' = hash_fn t1 \<and> eq_fn t' = eq_fn t1"
    using r1 c16 s by (intro set_store_weak) simp_all
  then show ?thesis using r1 c16 set_store_oracle [OF s] by (simp add: count_inv_def)
next
  case False
  with res have s: "x_hashtable_set_store t k v = Inr t'"
    by (simp add: x_hashtable_set_nonnull.simps)
  have "wf_struct t' \<and> count t' = n_occupied t' \<and> capacity t' = capacity t
      \<and> count t' \<le> count t + 1 \<and> hash_fn t' = hash_fn t \<and> eq_fn t' = eq_fn t"
    using inv s by (intro set_store_weak) (simp_all add: count_inv_def)
  then show ?thesis using inv False set_store_oracle [OF s]
    by (simp add: count_inv_def load_exceeded_def)
qed

lemma create_weak:
  assumes "x_hashtable_create_ex ks vs hf eqf a = Inr (Some t)"
  shows "count_inv t"
  using assms
  by (auto simp: x_hashtable_create_ex_def count_inv_def wf_struct_def n_occupied_def
      INITIAL_CAPACITY_def zero_entry_def split: prod.splits if_splits)

lemma remove_weak:
  assumes inv: "count_inv t" and res: "x_hashtable_remove (Some t) k = Inr (b, table')"
  shows "\<exists>t'. table' = Some t' \<and> count_inv t'"
proof (cases b)
  case False
  with res have "table' = Some t"
    by (auto simp: x_hashtable_remove_def split: sum.splits prod.splits if_splits)
  with inv show ?thesis by simp
next
  case True
  with res obtain i where p: "probe_index t k = Inr (i, True)"
    and t': "table' = Some (t\<lparr>allocator := stdx_free (stdx_free (allocator t)),
        entries := (entries t)[i := zero_entry], count := size_sub (count t) 1\<rparr>)"
    by (auto simp: x_hashtable_remove_def split: sum.splits prod.splits if_splits)
  have wf: "wf_struct t" using inv by (simp add: count_inv_def)
  have i: "i < capacity t" and m: "slot_matches t k i"
    using probe_index_result [OF wf p] by simp_all
  have len: "i < length (entries t)" using wf i by (simp add: wf_struct_def)
  have occ: "e_occupied (entries t ! i)" using m by (simp add: slot_matches_def)
  have dec: "Suc (n_occupied (t\<lparr>entries := (entries t)[i := zero_entry]\<rparr>)) = n_occupied t"
    using len occ by (simp add: n_occupied_def length_filter_update_lose zero_entry_def)
  have "wf_struct (t\<lparr>entries := (entries t)[i := zero_entry]\<rparr>)"
    using wf len by (intro wf_struct_update) (simp_all add: zero_entry_def)
  then show ?thesis using t' inv dec
    by (auto simp: count_inv_def size_sub_def wf_struct_def n_occupied_def)
qed

section \<open>Calls return when no allocation fails\<close>

lemma never_fails_cong: "will_succeed a' = will_succeed a \<Longrightarrow> never_fails a' = never_fails a"
  by (simp add: never_fails_def)

lemma set_store_total:
  assumes wf: "wf_struct t" and nf: "never_fails (allocator t)"
  shows "\<exists>t'. x_hashtable_set_store t k v = Inr t'"
proof -
  have len: "length (entries t) = capacity t" using wf by (simp add: wf_struct_def)
  have c: "0 < capacity t" using wf by (simp add: wf_struct_def)
  from wf show ?thesis
  proof (cases rule: probe_index_cases [where k = k])
    case (empty j)
    then show ?thesis using nf len probe_pos_less [OF c, of k j]
      by (simp add: x_hashtable_set_store_def stdx_alloc_def never_fails_def)
  next
    case (match j)
    then have "e_occupied (entries t ! probe_pos t k j)" by (simp add: slot_matches_def)
    then obtain w where "e_value (entries t ! probe_pos t k j) = Some w"
      using wf_struct_value [OF wf probe_pos_less [OF c]] by blast
    then show ?thesis using match len probe_pos_less [OF c, of k j]
      by (simp add: x_hashtable_set_store_def)
  next
    case full
    then show ?thesis using nf len probe_pos_less [OF c, of k 0]
      by (simp add: x_hashtable_set_store_def stdx_alloc_def never_fails_def)
  qed
qed

lemma rehash_loop_total:
  fixes tn :: "('k, 'v) XHashtable"
  assumes old: "\<forall>e\<in>set old. e_occupied e \<longrightarrow> e_key e \<noteq> None \<and> e_value e \<noteq> None"
    and len: "length old = oc"
  shows "i \<le> oc \<Longrightarrow> wf_struct tn \<Longrightarrow> count tn = n_occupied tn \<Longrightarrow> count tn \<le> i
    \<Longrightarrow> capacity tn = 2 * oc \<Longrightarrow> never_fails (allocator tn)
    \<Longrightarrow> \<exists>t'. rehash_loop old oc i tn = Inr t'"
proof (induction "oc - i" arbitrary: i tn)
  case 0
  then show ?case by (subst rehash_loop.simps) simp
next
  case (Suc n)
  then have lt: "i < oc" by simp
  have n: "n = oc - Suc i" using Suc.hyps(2) by simp
  show ?case
  proof (cases "e_occupied (old ! i)")
    case False
    have "\<exists>t'. rehash_loop old oc (Suc i) tn = Inr t'"
      using Suc.prems lt by (intro Suc.hyps(1) [OF n]) simp_all
    then show ?thesis using False lt len by (subst rehash_loop.simps) simp
  next
    case True
    then obtain k v where kv: "e_key (old ! i) = Some k" "e_value (old ! i) = Some v"
      using old lt len by (metis nth_mem option.exhaust)
    have nl: "\<not> load_exceeded tn" using Suc.prems lt by (simp add: load_exceeded_def)
    obtain t1 where s: "x_hashtable_set_store tn k v = Inr t1"
      using set_store_total [OF Suc.prems(2) Suc.prems(6)] by blast
    have w: "wf_struct t1 \<and> count t1 = n_occupied t1 \<and> capacity t1 = capacity tn
        \<and> count t1 \<le> count tn + 1 \<and> hash_fn t1 = hash_fn tn \<and> eq_fn t1 = eq_fn tn"
      using Suc.prems lt s by (intro set_store_weak) simp_all
    have nf: "never_fails (allocator t1)"
      using set_store_oracle [OF s] Suc.prems(6) by (simp add: never_fails_def)
    let ?t1 = "t1\<lparr>allocator := stdx_free (stdx_free (allocator t1))\<rparr>"
    have "\<exists>t'. rehash_loop old oc (Suc i) ?t1 = Inr t'"
      using w Suc.prems lt nf
      by (intro Suc.hyps(1) [OF n]) (simp_all add: never_fails_def stdx_free_def)
    then show ?thesis using True lt len kv nl s
      by (subst rehash_loop.simps) (simp add: x_hashtable_set_nonnull.simps)
  qed
qed

lemma rehash_total:
  fixes t :: "('k, 'v) XHashtable"
  assumes wf: "wf_struct t" and nf: "never_fails (allocator t)"
  shows "\<exists>t'. x_hashtable_rehash t = Inr t'"
proof -
  have c: "0 < capacity t" using wf by (simp add: wf_struct_def)
  let ?a = "(allocator t)\<lparr>n_allocs := Suc (n_allocs (allocator t))\<rparr>"
  let ?t0 = "t\<lparr>capacity := capacity t * 2, entries := replicate (capacity t * 2) zero_entry,
         count := 0, allocator := ?a\<rparr>"
  have "\<exists>t'. rehash_loop (entries t) (capacity t) 0 ?t0 = Inr t'"
    using wf nf c
    by (intro rehash_loop_total)
      (simp_all add: wf_struct_def zero_entry_def n_occupied_def never_fails_def)
  then show ?thesis using nf
    by (subst x_hashtable_rehash.simps) (simp add: stdx_alloc_def never_fails_def)
qed

lemma set_nonnull_total:
  fixes t :: "('k, 'v) XHashtable"
  assumes wf: "wf_struct t" and nf: "never_fails (allocator t)"
  shows "\<exists>t'. x_hashtable_set_nonnull t k v = Inr t'"
proof (cases "load_exceeded t")
  case True
  obtain t1 where r: "x_hashtable_rehash t = Inr t1" using rehash_total [OF wf nf] by blast
  have "wf_struct t1" "never_fails (allocator t1)"
    using rehash_weak [OF wf r] nf by (simp_all add: never_fails_def)
  then obtain t' where "x_hashtable_set_store t1 k v = Inr t'"
    using set_store_total [of t1 k v] by blast
  then show ?thesis using True r by (simp add: x_hashtable_set_nonnull.simps)
next
  case False
  then show ?thesis using set_store_total [OF wf nf] by (simp add: x_hashtable_set_nonnull.simps)
qed

section \<open>The probe-chain invariant\<close>

lemma consistent_refl: "consistent hf eqf \<Longrightarrow> eqf a a"
  by (simp add: consistent_def)

lemma consistent_sym: "consistent hf eqf \<Longrightarrow> eqf a b \<Longrightarrow> eqf b a"
  unfolding consistent_def by blast

lemma consistent_trans: "consistent hf eqf \<Longrightarrow> eqf a b \<Longrightarrow> eqf b c \<Longrightarrow> eqf a c"
  unfolding consistent_def by blast

lemma consistent_hash: "consistent hf eqf \<Longrightarrow> eqf a b \<Longrightarrow> hf a = hf b"
  unfolding consistent_def by blast

lemma keys_distinctD:
  "keys_distinct t \<Longrightarrow> i < capacity t \<Longrightarrow> i' < capacity t
    \<Longrightarrow> e_occupied (entries t ! i) \<Longrightarrow> e_occupied (entries t ! i')
    \<Longrightarrow> e_key (entries t ! i) = Some a \<Longrightarrow> e_key (entries t ! i') = Some b
    \<Longrightarrow> eq_fn t a b \<Longrightarrow> i = i'"
  unfolding keys_distinct_def by blast

lemma chain_okD:
  assumes "chain_ok t" "i < capacity t" "e_occupied (entries t ! i)" "e_key (entries t ! i) = Some a"
  obtains j where "j < capacity t" "probe_pos t a j = i"
    "\<forall>j'<j. e_occupied (entries t ! probe_pos t a j')"
  using assms unfolding chain_ok_def by blast

lemma table_invD:
  assumes "table_inv t"
  shows "wf_struct t" "count t = n_occupied t" "count t < capacity t" "keys_distinct t" "chain_ok t"
  using assms by (simp_all add: table_inv_def)

lemma slot_matches_iff:
  "slot_matches t q i \<longleftrightarrow>
     e_occupied (entries t ! i) \<and> (\<exists>a. e_key (entries t ! i) = Some a \<and> eq_fn t q a)"
  by (auto simp: slot_matches_def split: option.splits)

lemma probe_pos_hash: "hash_fn t a = hash_fn t b \<Longrightarrow> probe_pos t a j = probe_pos t b j"
  by (simp add: probe_pos_def)

text \<open>A stored key is found where it is stored.\<close>

lemma probe_index_hit:
  assumes con: "consistent (hash_fn t) (eq_fn t)" and inv: "table_inv t"
    and i: "i < capacity t" and m: "slot_matches t q i"
  shows "probe_index t q = Inr (i, True)"
proof -
  have wf: "wf_struct t" using inv by (simp add: table_inv_def)
  from m obtain a where occ: "e_occupied (entries t ! i)" and a: "e_key (entries t ! i) = Some a"
    and qa: "eq_fn t q a" by (auto simp: slot_matches_iff)
  have h: "hash_fn t q = hash_fn t a" using consistent_hash [OF con qa] .
  obtain j where j: "j < capacity t" and pj: "probe_pos t a j = i"
    and before: "\<forall>j'<j. e_occupied (entries t ! probe_pos t a j')"
    using chain_okD [OF table_invD(5) [OF inv] i occ a] by blast
  have pos: "probe_pos t q j' = probe_pos t a j'" for j'
    using h by (rule probe_pos_hash)
  have c: "0 < capacity t" using wf by (simp add: wf_struct_def)
  have "probe_passes t q j"
    unfolding probe_passes_def
  proof (intro allI impI conjI)
    fix j' assume lt: "j' < j"
    show "e_occupied (entries t ! probe_pos t q j')" using before lt pos by simp
    show "\<not> slot_matches t q (probe_pos t q j')"
    proof
      assume "slot_matches t q (probe_pos t q j')"
      then obtain b where ob: "e_occupied (entries t ! probe_pos t a j')"
        and b: "e_key (entries t ! probe_pos t a j') = Some b" and qb: "eq_fn t q b"
        by (auto simp: slot_matches_iff pos)
      have "eq_fn t b a"
        using consistent_trans [OF con consistent_sym [OF con qb] qa] .
      then have "probe_pos t a j' = i"
        using keys_distinctD [OF table_invD(4) [OF inv] probe_pos_less [OF c] i ob occ b a]
        by simp
      then have "j' = j" using pj probe_pos_eq_iff [of j' t j a] lt j by simp
      with lt show False by simp
    qed
  qed
  moreover have "slot_matches t q (probe_pos t q j)" using m pj pos by simp
  ultimately have "probe_index t q = Inr (probe_pos t q j, True)"
    using probe_index_match [OF wf j] by blast
  then show ?thesis using pj pos by simp
qed

text \<open>A key that is not stored leads to an empty slot.\<close>

lemma probe_index_miss:
  assumes inv: "table_inv t" and np: "\<not> present t q"
  obtains j where "j < capacity t" "probe_passes t q j"
    "\<not> e_occupied (entries t ! probe_pos t q j)" "probe_index t q = Inr (probe_pos t q j, False)"
proof -
  have wf: "wf_struct t" using inv by (simp add: table_inv_def)
  have c: "0 < capacity t" and len: "length (entries t) = capacity t"
    using wf by (simp_all add: wf_struct_def)
  from wf show ?thesis
  proof (cases rule: probe_index_cases [where k = q])
    case (empty j)
    then show ?thesis using that by blast
  next
    case (match j)
    then have "present t q" using probe_pos_less [OF c, of q j] by (auto simp: present_def)
    with np show ?thesis by simp
  next
    case full
    have "\<forall>i<capacity t. e_occupied (entries t ! i)"
      using probe_passes_full_occupied [OF c full(1)] by blast
    moreover have "n_occupied t < capacity t" using inv by (simp add: table_inv_def)
    ultimately show ?thesis using not_full_has_empty [OF len] by blast
  qed
qed

lemma probe_index_found_iff:
  assumes con: "consistent (hash_fn t) (eq_fn t)" and inv: "table_inv t"
  shows "(\<exists>i. probe_index t q = Inr (i, True)) \<longleftrightarrow> present t q"
proof
  assume "\<exists>i. probe_index t q = Inr (i, True)"
  then obtain i where p: "probe_index t q = Inr (i, True)" by blast
  have wf: "wf_struct t" using inv by (simp add: table_inv_def)
  from probe_index_result [OF wf p] show "present t q" by (auto simp: present_def)
next
  assume "present t q"
  then obtain i where "i < capacity t" "slot_matches t q i" by (auto simp: present_def)
  then show "\<exists>i. probe_index t q = Inr (i, True)"
    using probe_index_hit [OF con inv] by blast
qed

lemma consistent_nat: "consistent nat_hash nat_eq"
  by (simp add: consistent_def nat_hash_def nat_eq_def)

lemma never_fails_heap0: "never_fails heap0"
  by (simp add: never_fails_def heap0_def always_ok_def)

lemma table_inv_allocator [simp]: "table_inv (t\<lparr>allocator := a\<rparr>) = table_inv t"
  by (simp add: table_inv_def keys_distinct_def chain_ok_def probe_pos_def wf_struct_def
      n_occupied_def)

lemma holds_allocator [simp]: "holds (t\<lparr>allocator := a\<rparr>) q w = holds t q w"
  by (simp add: holds_def slot_matches_iff)

lemma present_allocator [simp]: "present (t\<lparr>allocator := a\<rparr>) q = present t q"
  by (simp add: present_def slot_matches_iff)

text \<open>Storing a value into the slot that holds the key.\<close>

lemma update_value_inv:
  fixes t :: "('k, 'v) XHashtable" and v :: 'v
  assumes con: "consistent (hash_fn t) (eq_fn t)" and inv: "table_inv t"
    and i: "i < capacity t" and m: "slot_matches t k i"
  defines "t' \<equiv> t\<lparr>entries := (entries t)[i := (entries t ! i)\<lparr>e_value := Some v\<rparr>]\<rparr>"
  shows "table_inv t'" and "holds t' q w \<longleftrightarrow> (if eq_fn t q k then w = v else holds t q w)"
proof -
  have wf: "wf_struct t" using inv by (simp add: table_inv_def)
  have len: "length (entries t) = capacity t" using wf by (simp add: wf_struct_def)
  have il: "i < length (entries t)" using i len by simp
  have key: "e_key (entries t' ! x) = e_key (entries t ! x)" for x
    using il by (cases "x = i") (simp_all add: t'_def)
  have occ: "e_occupied (entries t' ! x) = e_occupied (entries t ! x)" for x
    using il by (cases "x = i") (simp_all add: t'_def)
  have val: "e_value (entries t' ! x) = (if x = i then Some v else e_value (entries t ! x))" for x
    using il by (cases "x = i") (simp_all add: t'_def)
  have same: "capacity t' = capacity t" "hash_fn t' = hash_fn t" "eq_fn t' = eq_fn t"
    "count t' = count t"
    by (simp_all add: t'_def)
  have pos: "probe_pos t' a j = probe_pos t a j" for a j
    by (simp add: probe_pos_def same)
  have sm: "slot_matches t' a x = slot_matches t a x" for a x
    by (simp add: slot_matches_iff key occ same)
  have "wf_struct t'"
    unfolding t'_def using wf il by (intro wf_struct_update) (auto simp: wf_struct_def)
  moreover have "n_occupied t' = n_occupied t"
    using il by (simp add: n_occupied_def t'_def length_filter_update_same)
  moreover have "keys_distinct t'"
    using inv by (simp add: table_inv_def keys_distinct_def key occ same)
  moreover have "chain_ok t'"
    using inv by (simp add: table_inv_def chain_ok_def key occ same pos)
  ultimately show "table_inv t'" using inv by (simp add: table_inv_def same)
  from m obtain a where oi: "e_occupied (entries t ! i)" and a: "e_key (entries t ! i) = Some a"
    and ka: "eq_fn t k a" by (auto simp: slot_matches_iff)
  show "holds t' q w \<longleftrightarrow> (if eq_fn t q k then w = v else holds t q w)"
  proof (cases "eq_fn t q k")
    case True
    have qa: "eq_fn t q a" using consistent_trans [OF con True ka] .
    have only: "x = i" if "x < capacity t" "slot_matches t q x" for x
    proof -
      from that obtain b where ox: "e_occupied (entries t ! x)" and b: "e_key (entries t ! x) = Some b"
        and qb: "eq_fn t q b" by (auto simp: slot_matches_iff)
      have "eq_fn t b a" using consistent_trans [OF con consistent_sym [OF con qb] qa] .
      then show ?thesis
        using keys_distinctD [OF table_invD(4) [OF inv] that(1) i ox oi b a] by simp
    qed
    have mi: "slot_matches t q i" using oi a qa by (auto simp: slot_matches_iff)
    have "holds t' q w \<longleftrightarrow> w = v"
    proof
      assume "holds t' q w"
      then obtain x where x: "x < capacity t" "slot_matches t q x"
        "e_value (entries t' ! x) = Some w"
        by (auto simp: holds_def sm same)
      then have "x = i" using only by simp
      with x(3) show "w = v" by (simp add: val)
    next
      assume "w = v"
      then have "slot_matches t' q i \<and> e_value (entries t' ! i) = Some w"
        using mi by (simp add: sm val)
      then show "holds t' q w" unfolding holds_def using i same(1) by auto
    qed
    with True show ?thesis by simp
  next
    case False
    have "\<not> slot_matches t q i"
    proof
      assume "slot_matches t q i"
      then have "eq_fn t q a" using a by (auto simp: slot_matches_iff)
      then have "eq_fn t q k"
        using consistent_trans [OF con _ consistent_sym [OF con ka]] by blast
      with False show False by simp
    qed
    then have "(slot_matches t' q x \<and> e_value (entries t' ! x) = Some w)
        \<longleftrightarrow> (slot_matches t q x \<and> e_value (entries t ! x) = Some w)" for x
      by (cases "x = i") (simp_all add: sm val)
    then have "holds t' q w \<longleftrightarrow> holds t q w"
      by (simp add: holds_def same)
    with False show ?thesis by simp
  qed
qed

text \<open>Creating an entry in the empty slot a probe for an absent key ends in.\<close>

lemma insert_new_inv:
  fixes t :: "('k, 'v) XHashtable" and k :: 'k and v :: 'v and a' :: XAllocator
  assumes con: "consistent (hash_fn t) (eq_fn t)" and inv: "table_inv t"
    and j: "j < capacity t" and pass: "probe_passes t k j"
    and emp: "\<not> e_occupied (entries t ! probe_pos t k j)"
    and np: "\<not> present t k" and room: "count t + 1 < capacity t"
  defines "t' \<equiv> t\<lparr>entries := (entries t)[probe_pos t k j :=
                      \<lparr>e_key = Some k, e_value = Some v, e_occupied = True\<rparr>],
                    count := count t + 1, allocator := a'\<rparr>"
  shows "table_inv t'" and "holds t' q w \<longleftrightarrow> (if eq_fn t q k then w = v else holds t q w)"
proof -
  let ?i = "probe_pos t k j"
  have wf: "wf_struct t" using inv by (rule table_invD)
  have c: "0 < capacity t" and len: "length (entries t) = capacity t"
    using wf by (simp_all add: wf_struct_def)
  have i: "?i < capacity t" using probe_pos_less [OF c] .
  have il: "?i < length (entries t)" using i len by simp
  have key: "e_key (entries t' ! x) = (if x = ?i then Some k else e_key (entries t ! x))" for x
    using il by (cases "x = ?i") (simp_all add: t'_def)
  have occ: "e_occupied (entries t' ! x) = (x = ?i \<or> e_occupied (entries t ! x))" for x
    using il by (cases "x = ?i") (simp_all add: t'_def)
  have val: "e_value (entries t' ! x) = (if x = ?i then Some v else e_value (entries t ! x))" for x
    using il by (cases "x = ?i") (simp_all add: t'_def)
  have same: "capacity t' = capacity t" "hash_fn t' = hash_fn t" "eq_fn t' = eq_fn t"
    "count t' = count t + 1"
    by (simp_all add: t'_def)
  have pos: "probe_pos t' a n = probe_pos t a n" for a n
    by (simp add: probe_pos_def same)
  have nomatch: False if "x < capacity t" "e_occupied (entries t ! x)"
    "e_key (entries t ! x) = Some b" "eq_fn t k b" for x b
    using np that unfolding present_def slot_matches_iff by blast
  have sm: "slot_matches t' a x \<longleftrightarrow> (if x = ?i then eq_fn t a k else slot_matches t a x)" for a x
    by (simp add: slot_matches_iff key occ same)
  have wf': "wf_struct t'"
  proof -
    have "wf_struct (t\<lparr>entries := (entries t)[?i :=
        \<lparr>e_key = Some k, e_value = Some v, e_occupied = True\<rparr>]\<rparr>)"
      using wf il by (intro wf_struct_update) simp_all
    then show ?thesis by (simp add: t'_def wf_struct_def)
  qed
  have nocc: "n_occupied t' = Suc (n_occupied t)"
    using il emp by (simp add: n_occupied_def t'_def length_filter_update_gain)
  have kd: "keys_distinct t'"
    unfolding keys_distinct_def
  proof (intro allI impI)
    fix i1 i2 a b
    assume i1: "i1 < capacity t'" and i2: "i2 < capacity t'"
      and h: "e_occupied (entries t' ! i1) \<and> e_occupied (entries t' ! i2)
        \<and> e_key (entries t' ! i1) = Some a \<and> e_key (entries t' ! i2) = Some b \<and> eq_fn t' a b"
    show "i1 = i2"
    proof (cases "i1 = ?i")
      case True
      show ?thesis
      proof (cases "i2 = ?i")
        case True
        with \<open>i1 = ?i\<close> show ?thesis by simp
      next
        case False
        with True h have "a = k" "e_occupied (entries t ! i2)" "e_key (entries t ! i2) = Some b"
          "eq_fn t k b"
          by (simp_all add: key occ same)
        with nomatch [of i2 b] i2 show ?thesis by (simp add: same)
      qed
    next
      case False
      show ?thesis
      proof (cases "i2 = ?i")
        case True
        with False h have "b = k" "e_occupied (entries t ! i1)" "e_key (entries t ! i1) = Some a"
          "eq_fn t a k"
          by (simp_all add: key occ same)
        with nomatch [of i1 a] i1 consistent_sym [OF con] show ?thesis by (auto simp: same)
      next
        case i2n: False
        with False h have "e_occupied (entries t ! i1)" "e_occupied (entries t ! i2)"
          "e_key (entries t ! i1) = Some a" "e_key (entries t ! i2) = Some b" "eq_fn t a b"
          by (simp_all add: key occ same)
        then show ?thesis
          using keys_distinctD [OF table_invD(4) [OF inv], of i1 i2 a b] i1 i2 by (simp add: same)
      qed
    qed
  qed
  have ch: "chain_ok t'"
    unfolding chain_ok_def
  proof (intro allI impI)
    fix i1 a
    assume i1: "i1 < capacity t'"
      and h: "e_occupied (entries t' ! i1) \<and> e_key (entries t' ! i1) = Some a"
    show "\<exists>n<capacity t'. probe_pos t' a n = i1
        \<and> (\<forall>n'<n. e_occupied (entries t' ! probe_pos t' a n'))"
    proof (cases "i1 = ?i")
      case True
      with h have ak: "a = k" by (simp add: key)
      have "\<forall>n'<j. e_occupied (entries t' ! probe_pos t' a n')"
        using pass by (simp add: probe_passes_def occ pos ak)
      then show ?thesis using j True by (auto simp: same pos ak)
    next
      case False
      with h have "e_occupied (entries t ! i1)" "e_key (entries t ! i1) = Some a"
        by (simp_all add: key occ)
      then obtain n where n: "n < capacity t" "probe_pos t a n = i1"
        "\<forall>n'<n. e_occupied (entries t ! probe_pos t a n')"
        using chain_okD [OF table_invD(5) [OF inv], of i1 a] i1 by (auto simp: same)
      then have "\<forall>n'<n. e_occupied (entries t' ! probe_pos t' a n')"
        by (simp add: occ pos)
      with n show ?thesis by (auto simp: same pos)
    qed
  qed
  show "table_inv t'"
    using wf' nocc kd ch room inv by (simp add: table_inv_def same)
  show "holds t' q w \<longleftrightarrow> (if eq_fn t q k then w = v else holds t q w)"
  proof (cases "eq_fn t q k")
    case True
    have none: "\<not> slot_matches t q x" if "x < capacity t" for x
    proof
      assume "slot_matches t q x"
      then obtain b where "e_occupied (entries t ! x)" "e_key (entries t ! x) = Some b" "eq_fn t q b"
        by (auto simp: slot_matches_iff)
      moreover have "eq_fn t k b"
        using consistent_trans [OF con consistent_sym [OF con True] \<open>eq_fn t q b\<close>] .
      ultimately show False using nomatch that by blast
    qed
    have "holds t' q w \<longleftrightarrow> w = v"
    proof
      assume "holds t' q w"
      then obtain x where x: "x < capacity t" "slot_matches t' q x"
        "e_value (entries t' ! x) = Some w"
        by (auto simp: holds_def same)
      have "x = ?i" using x(1,2) none [of x] by (cases "x = ?i") (simp_all add: sm)
      with x(3) show "w = v" by (simp add: val)
    next
      assume "w = v"
      then have "slot_matches t' q ?i \<and> e_value (entries t' ! ?i) = Some w"
        using True by (simp add: sm val)
      then show "holds t' q w" unfolding holds_def using i same(1) by auto
    qed
    with True show ?thesis by simp
  next
    case False
    have "\<not> slot_matches t q ?i" using emp by (simp add: slot_matches_iff)
    with False have "(slot_matches t' q x \<and> e_value (entries t' ! x) = Some w)
        \<longleftrightarrow> (slot_matches t q x \<and> e_value (entries t ! x) = Some w)" for x
      by (cases "x = ?i") (simp_all add: sm val)
    then have "holds t' q w \<longleftrightarrow> holds t q w"
      by (simp add: holds_def same)
    with False show ?thesis by simp
  qed
qed

lemma present_iff_holds:
  assumes "wf_struct t"
  shows "present t q \<longleftrightarrow> (\<exists>w. holds t q w)"
proof
  assume "present t q"
  then obtain i where i: "i < capacity t" "slot_matches t q i" by (auto simp: present_def)
  then have "e_occupied (entries t ! i)" by (simp add: slot_matches_iff)
  then obtain w where "e_value (entries t ! i) = Some w"
    using wf_struct_value [OF assms i(1)] by blast
  with i show "\<exists>w. holds t q w" by (auto simp: holds_def)
next
  assume "\<exists>w. holds t q w"
  then show "present t q" by (auto simp: holds_def present_def)
qed

lemma set_store_strong:
  fixes t :: "('k, 'v) XHashtable"
  assumes con: "consistent (hash_fn t) (eq_fn t)" and inv: "table_inv t"
    and room: "count t + 1 < capacity t"
    and res: "x_hashtable_set_store t k v = Inr t'"
  shows "table_inv t'"
    and "holds t' q w \<longleftrightarrow> (if eq_fn t q k then w = v else holds t q w)"
    and "count t' = (if present t k then count t else count t + 1)"
    and "capacity t' = capacity t \<and> hash_fn t' = hash_fn t \<and> eq_fn t' = eq_fn t"
proof -
  have wf: "wf_struct t" using inv by (rule table_invD)
  have "table_inv t' \<and> (holds t' q w \<longleftrightarrow> (if eq_fn t q k then w = v else holds t q w))
    \<and> count t' = (if present t k then count t else count t + 1)
    \<and> capacity t' = capacity t \<and> hash_fn t' = hash_fn t \<and> eq_fn t' = eq_fn t"
    using res
  proof (cases rule: set_store_cases)
    case (update i)
    have i: "i < capacity t" and m: "slot_matches t k i"
      using probe_index_result [OF wf update(1)] by simp_all
    have "present t k" using i m by (auto simp: present_def)
    then show ?thesis
      using update_value_inv(1) [OF con inv i m, where v = v]
        update_value_inv(2) [OF con inv i m, where v = v and q = q and w = w]
        update(3) by simp
  next
    case (insert i a')
    have np: "\<not> present t k"
    proof
      assume "present t k"
      then obtain x where "probe_index t k = Inr (x, True)"
        using probe_index_found_iff [OF con inv, of k] by blast
      with insert(1) show False by simp
    qed
    from inv np obtain j where j: "j < capacity t" "probe_passes t k j"
      "\<not> e_occupied (entries t ! probe_pos t k j)" "probe_index t k = Inr (probe_pos t k j, False)"
      by (rule probe_index_miss)
    have i: "i = probe_pos t k j" using insert(1) j(4) by simp
    show ?thesis
      using insert_new_inv(1) [OF con inv j(1,2,3) np room, where v = v and a' = a']
        insert_new_inv(2) [OF con inv j(1,2,3) np room, where v = v and a' = a' and q = q and w = w]
        insert(3) np
      by (simp add: i)
  qed
  then show "table_inv t'"
    and "holds t' q w \<longleftrightarrow> (if eq_fn t q k then w = v else holds t q w)"
    and "count t' = (if present t k then count t else count t + 1)"
    and "capacity t' = capacity t \<and> hash_fn t' = hash_fn t \<and> eq_fn t' = eq_fn t"
    by simp_all
qed

lemma table_inv_fresh:
  "0 < c \<Longrightarrow> table_inv (t\<lparr>capacity := c, entries := replicate c zero_entry, count := 0\<rparr>)"
  by (simp add: table_inv_def wf_struct_def n_occupied_def keys_distinct_def chain_ok_def
      zero_entry_def)

lemma holds_fresh:
  "\<not> holds (t\<lparr>capacity := c, entries := replicate c zero_entry, count := 0\<rparr>) q w"
  by (simp add: holds_def slot_matches_iff zero_entry_def)

lemma length_filter_take_Suc:
  "i < length xs \<Longrightarrow> length (filter P (take (Suc i) xs))
     = length (filter P (take i xs)) + (if P (xs ! i) then 1 else 0)"
  by (simp add: take_Suc_conv_app_nth)

text \<open>A rehash keeps what the table holds, and its count.\<close>

lemma rehash_strong:
  fixes t :: "('k, 'v) XHashtable"
  assumes con: "consistent (hash_fn t) (eq_fn t)" and inv: "table_inv t"
    and res: "x_hashtable_rehash t = Inr t'"
  shows "table_inv t'" and "capacity t' = 2 * capacity t" and "count t' = count t"
    and "holds t' q w \<longleftrightarrow> holds t q w"
    and "hash_fn t' = hash_fn t \<and> eq_fn t' = eq_fn t"
proof -
  define old_holds where "old_holds i q w \<longleftrightarrow>
      (\<exists>x<i. slot_matches t q x \<and> e_value (entries t ! x) = Some w)" for i q w
  define Q where "Q i tn \<longleftrightarrow> table_inv tn \<and> capacity tn = 2 * capacity t
      \<and> hash_fn tn = hash_fn t \<and> eq_fn tn = eq_fn t
      \<and> count tn = length (filter e_occupied (take i (entries t)))
      \<and> (\<forall>q w. holds tn q w \<longleftrightarrow> old_holds i q w)"
    for i and tn :: "('k, 'v) XHashtable"
  have wf: "wf_struct t" using inv by (rule table_invD)
  have c: "0 < capacity t" and len: "length (entries t) = capacity t"
    using wf by (simp_all add: wf_struct_def)
  obtain a1 where loop: "rehash_loop (entries t) (capacity t) 0
      (t\<lparr>capacity := capacity t * 2, entries := replicate (capacity t * 2) zero_entry,
         count := 0, allocator := a1\<rparr>) = Inr t'"
    using res by (subst (asm) x_hashtable_rehash.simps) (auto split: prod.splits if_splits)
  have start: "Q 0 (t\<lparr>capacity := capacity t * 2, entries := replicate (capacity t * 2) zero_entry,
         count := 0, allocator := a1\<rparr>)"
    unfolding Q_def using c by (simp add: table_inv_fresh holds_fresh old_holds_def)
  have "\<exists>t''. t' = t''\<lparr>allocator := stdx_free (allocator t'')\<rparr> \<and> Q (capacity t) t''"
  proof (rule rehash_loop_rule [OF loop, where Q = Q, OF start])
    fix i and tn :: "('k, 'v) XHashtable"
    assume i: "i < capacity t" "i < length (entries t)" and q: "Q i tn"
      and no: "\<not> e_occupied (entries t ! i)"
    have "old_holds (Suc i) q' w' \<longleftrightarrow> old_holds i q' w'" for q' w'
      unfolding old_holds_def using no by (auto simp: less_Suc_eq slot_matches_iff)
    then show "Q (Suc i) tn"
      using q i no by (simp add: Q_def length_filter_take_Suc)
  next
    fix i a b and tn t1 :: "('k, 'v) XHashtable"
    assume i: "i < capacity t" "i < length (entries t)" and q: "Q i tn"
      and occ: "e_occupied (entries t ! i)"
      and a: "e_key (entries t ! i) = Some a" and b: "e_value (entries t ! i) = Some b"
      and s: "x_hashtable_set_nonnull tn a b = Inr t1"
    have inv_n: "table_inv tn" and cap_n: "capacity tn = 2 * capacity t"
      and fn_n: "hash_fn tn = hash_fn t" "eq_fn tn = eq_fn t"
      and cnt_n: "count tn = length (filter e_occupied (take i (entries t)))"
      and holds_n: "\<And>q w. holds tn q w \<longleftrightarrow> old_holds i q w"
      using q by (simp_all add: Q_def)
    have "count tn \<le> length (take i (entries t))"
      unfolding cnt_n by (rule length_filter_le)
    then have cnt_le: "count tn \<le> i" using i by simp
    have "\<not> load_exceeded tn" using cnt_le i cap_n by (simp add: load_exceeded_def)
    with s have st: "x_hashtable_set_store tn a b = Inr t1"
      by (simp add: x_hashtable_set_nonnull.simps)
    have con_n: "consistent (hash_fn tn) (eq_fn tn)" using con fn_n by simp
    have room: "count tn + 1 < capacity tn" using cnt_le i cap_n by simp
    note ss = set_store_strong [OF con_n inv_n room st]
    have np: "\<not> present tn a"
    proof
      assume "present tn a"
      then obtain w where "holds tn a w"
        using present_iff_holds [OF table_invD(1) [OF inv_n]] by blast
      then obtain x where x: "x < i" "slot_matches t a x"
        by (auto simp: holds_n old_holds_def)
      then obtain a' where "e_occupied (entries t ! x)" "e_key (entries t ! x) = Some a'"
        "eq_fn t a a'"
        by (auto simp: slot_matches_iff)
      then have "i = x"
        using keys_distinctD [OF table_invD(4) [OF inv] i(1) _ occ _ a, of x a'] x(1) i(1) by simp
      with x(1) show False by simp
    qed
    have hs: "holds t1 q' w' \<longleftrightarrow> old_holds (Suc i) q' w'" for q' w'
    proof (cases "eq_fn t q' a")
      case True
      have only: "x = i" if "x < Suc i" "slot_matches t q' x" for x
      proof -
        from that obtain a' where "e_occupied (entries t ! x)" "e_key (entries t ! x) = Some a'"
          "eq_fn t q' a'"
          by (auto simp: slot_matches_iff)
        moreover have "eq_fn t a a'"
          using consistent_trans [OF con consistent_sym [OF con True] \<open>eq_fn t q' a'\<close>] .
        ultimately show ?thesis
          using keys_distinctD [OF table_invD(4) [OF inv] i(1) _ occ _ a, of x a'] that(1) i(1)
          by simp
      qed
      have mi: "slot_matches t q' i" using occ a True by (simp add: slot_matches_iff)
      have "old_holds (Suc i) q' w' \<longleftrightarrow> w' = b"
      proof
        assume "old_holds (Suc i) q' w'"
        then obtain x where x: "x < Suc i" "slot_matches t q' x" "e_value (entries t ! x) = Some w'"
          by (auto simp: old_holds_def)
        then have "x = i" using only by simp
        with x(3) b show "w' = b" by simp
      next
        assume "w' = b"
        then show "old_holds (Suc i) q' w'"
          unfolding old_holds_def using mi b by (intro exI [of _ i]) simp
      qed
      then show ?thesis using ss(2) [of q' w'] True fn_n by simp
    next
      case False
      have "\<not> slot_matches t q' i" using False occ a by (simp add: slot_matches_iff)
      then have "old_holds (Suc i) q' w' \<longleftrightarrow> old_holds i q' w'"
        unfolding old_holds_def by (auto simp: less_Suc_eq)
      then show ?thesis using ss(2) [of q' w'] False fn_n holds_n by simp
    qed
    have "count t1 = length (filter e_occupied (take (Suc i) (entries t)))"
      using ss(3) np cnt_n i occ by (simp add: length_filter_take_Suc)
    then show "Q (Suc i) (t1\<lparr>allocator := stdx_free (stdx_free (allocator t1))\<rparr>)"
      using ss(1) ss(4) hs cap_n fn_n by (simp add: Q_def)
  qed simp
  then obtain t'' where t'': "t' = t''\<lparr>allocator := stdx_free (allocator t'')\<rparr>"
    and q: "Q (capacity t) t''" by blast
  show "table_inv t'" using t'' q by (simp add: Q_def)
  show "capacity t' = 2 * capacity t" using t'' q by (simp add: Q_def)
  show "count t' = count t"
    using t'' q len table_invD(2) [OF inv] by (simp add: Q_def n_occupied_def)
  have "old_holds (capacity t) q w \<longleftrightarrow> holds t q w"
    by (simp add: old_holds_def holds_def)
  then show "holds t' q w \<longleftrightarrow> holds t q w"
    using t'' q by (simp add: Q_def)
  show "hash_fn t' = hash_fn t \<and> eq_fn t' = eq_fn t" using t'' q by (simp add: Q_def)
qed

lemma set_nonnull_strong:
  fixes t :: "('k, 'v) XHashtable"
  assumes con: "consistent (hash_fn t) (eq_fn t)" and inv: "table_inv t"
    and c16: "16 \<le> capacity t"
    and res: "x_hashtable_set_nonnull t k v = Inr t'"
  shows "table_inv t'" and "16 \<le> capacity t'"
    and "holds t' q w \<longleftrightarrow> (if eq_fn t q k then w = v else holds t q w)"
    and "count t' = (if present t k then count t else count t + 1)"
    and "hash_fn t' = hash_fn t \<and> eq_fn t' = eq_fn t"
proof -
  have "table_inv t' \<and> 16 \<le> capacity t'
    \<and> (holds t' q w \<longleftrightarrow> (if eq_fn t q k then w = v else holds t q w))
    \<and> count t' = (if present t k then count t else count t + 1)
    \<and> hash_fn t' = hash_fn t \<and> eq_fn t' = eq_fn t"
  proof (cases "load_exceeded t")
    case True
    with res obtain t1 where r: "x_hashtable_rehash t = Inr t1"
      and s: "x_hashtable_set_store t1 k v = Inr t'"
      by (auto simp: x_hashtable_set_nonnull.simps split: sum.splits)
    note rs = rehash_strong [OF con inv r]
    have con1: "consistent (hash_fn t1) (eq_fn t1)" using con rs(5) by simp
    have room: "count t1 + 1 < capacity t1"
      using rs(2,3) table_invD(3) [OF inv] by simp
    note ss = set_store_strong [OF con1 rs(1) room s]
    have "present t1 k \<longleftrightarrow> present t k"
      using present_iff_holds [OF table_invD(1) [OF rs(1)]]
        present_iff_holds [OF table_invD(1) [OF inv]] rs(4) by simp
    then show ?thesis
      using ss(1) ss(2) [of q w] ss(3) ss(4) rs(2,3,5) rs(4) [of q w] c16 by simp
  next
    case False
    with res have s: "x_hashtable_set_store t k v = Inr t'"
      by (simp add: x_hashtable_set_nonnull.simps)
    have room: "count t + 1 < capacity t"
      using False c16 by (simp add: load_exceeded_def)
    note ss = set_store_strong [OF con inv room s]
    show ?thesis using ss(1) ss(2) [of q w] ss(3) ss(4) c16 by simp
  qed
  then show "table_inv t'" and "16 \<le> capacity t'"
    and "holds t' q w \<longleftrightarrow> (if eq_fn t q k then w = v else holds t q w)"
    and "count t' = (if present t k then count t else count t + 1)"
    and "hash_fn t' = hash_fn t \<and> eq_fn t' = eq_fn t"
    by simp_all
qed

lemma get_holds:
  assumes con: "consistent (hash_fn t) (eq_fn t)" and inv: "table_inv t" and h: "holds t q w"
  shows "x_hashtable_get (Some t) q = Inr (True, Some w)"
proof -
  from h obtain i where i: "i < capacity t" "slot_matches t q i" "e_value (entries t ! i) = Some w"
    by (auto simp: holds_def)
  have "probe_index t q = Inr (i, True)" using probe_index_hit [OF con inv i(1,2)] .
  moreover have "i < length (entries t)"
    using i(1) table_invD(1) [OF inv] by (simp add: wf_struct_def)
  ultimately show ?thesis using i(3) by (simp add: x_hashtable_get_def)
qed

lemma has_present:
  assumes con: "consistent (hash_fn t) (eq_fn t)" and inv: "table_inv t"
  shows "x_hashtable_has (Some t) q = Inr (present t q)"
proof (cases "present t q")
  case True
  then obtain i where "probe_index t q = Inr (i, True)"
    using probe_index_found_iff [OF con inv, of q] by blast
  with True show ?thesis by (simp add: x_hashtable_has_def)
next
  case False
  from inv False obtain j where "probe_index t q = Inr (probe_pos t q j, False)"
    by (rule probe_index_miss)
  with False show ?thesis by (simp add: x_hashtable_has_def)
qed

lemma create_strong:
  assumes "x_hashtable_create_ex ks vs hf eqf a = Inr (Some t)"
  shows "table_inv t" and "16 \<le> capacity t" and "hash_fn t = hf" and "eq_fn t = eqf"
    and "count t = 0" and "\<not> present t q"
  using assms
  by (auto simp: x_hashtable_create_ex_def table_inv_def wf_struct_def n_occupied_def
      keys_distinct_def chain_ok_def present_def slot_matches_iff
      INITIAL_CAPACITY_def zero_entry_def split: prod.splits if_splits)

lemma run_sets_strong:
  fixes t :: "('k, 'v) XHashtable"
  assumes con: "consistent hf eqf"
  shows "table_inv t \<Longrightarrow> 16 \<le> capacity t \<Longrightarrow> hash_fn t = hf \<Longrightarrow> eq_fn t = eqf
    \<Longrightarrow> run_sets (Some t) ops = Inr table'
    \<Longrightarrow> \<exists>t'. table' = Some t' \<and> table_inv t' \<and> 16 \<le> capacity t'
          \<and> hash_fn t' = hf \<and> eq_fn t' = eqf
          \<and> (\<forall>q w. holds t' q w \<longleftrightarrow>
                (case latest eqf ops q of Some w' \<Rightarrow> w = w' | None \<Rightarrow> holds t q w))"
proof (induction ops arbitrary: t)
  case Nil
  then show ?case by auto
next
  case (Cons op ops)
  obtain k v where op: "op = (k, v)" by (cases op)
  from Cons.prems(5) obtain t1 where s: "x_hashtable_set_nonnull t k v = Inr t1"
    and r: "run_sets (Some t1) ops = Inr table'"
    by (auto simp: op x_hashtable_set_def split: sum.splits)
  have con_t: "consistent (hash_fn t) (eq_fn t)" using con Cons.prems by simp
  note ss = set_nonnull_strong [OF con_t Cons.prems(1,2) s]
  have fn1: "hash_fn t1 = hf" "eq_fn t1 = eqf" using ss(5) Cons.prems by simp_all
  from Cons.IH [OF ss(1) ss(2) fn1 r] obtain t' where t': "table' = Some t'" "table_inv t'"
    "16 \<le> capacity t'" "hash_fn t' = hf" "eq_fn t' = eqf"
    and h: "\<And>q w. holds t' q w \<longleftrightarrow>
      (case latest eqf ops q of Some w' \<Rightarrow> w = w' | None \<Rightarrow> holds t1 q w)"
    by blast
  have "holds t' q w \<longleftrightarrow>
      (case latest eqf (op # ops) q of Some w' \<Rightarrow> w = w' | None \<Rightarrow> holds t q w)" for q w
    using h [of q w] ss(3) [of q w] Cons.prems(4)
    by (auto simp: op split: option.splits)
  with t' show ?case by simp
qed

lemma run_sets_total:
  fixes t :: "('k, 'v) XHashtable"
  shows "count_inv t \<Longrightarrow> never_fails (allocator t) \<Longrightarrow> \<exists>t'. run_sets (Some t) ops = Inr (Some t')"
proof (induction ops arbitrary: t)
  case Nil
  then show ?case by simp
next
  case (Cons op ops)
  obtain k v where op: "op = (k, v)" by (cases op)
  have wf: "wf_struct t" using Cons.prems(1) by (simp add: count_inv_def)
  obtain t1 where s: "x_hashtable_set_nonnull t k v = Inr t1"
    using set_nonnull_total [OF wf Cons.prems(2)] by blast
  note w = set_nonnull_weak [OF Cons.prems(1) s]
  have "never_fails (allocator t1)" using w Cons.prems(2) by (simp add: never_fails_def)
  then obtain t' where "run_sets (Some t1) ops = Inr (Some t')"
    using Cons.IH [of t1] w by blast
  then show ?case using s by (simp add: op x_hashtable_set_def)
qed

section \<open>A set followed by a remove\<close>

lemma probe_passes_cong:
  assumes "capacity t' = capacity t" "hash_fn t' = hash_fn t" "eq_fn t' = eq_fn t"
    and "\<forall>j'<j. entries t' ! probe_pos t k j' = entries t ! probe_pos t k j'"
  shows "probe_passes t' k j = probe_passes t k j"
proof -
  have "probe_pos t' k n = probe_pos t k n" for n
    using assms(1,2) by (simp add: probe_pos_def)
  then show ?thesis using assms by (simp add: probe_passes_def slot_matches_iff)
qed

lemma probe_passes_update:
  assumes j: "j < capacity t" and cap: "capacity t' = capacity t" and hf: "hash_fn t' = hash_fn t"
    and eqf: "eq_fn t' = eq_fn t" and ent: "entries t' = (entries t)[probe_pos t k j := e]"
  shows "probe_passes t' k j = probe_passes t k j"
proof (rule probe_passes_cong [OF cap hf eqf], intro allI impI)
  fix j' assume lt: "j' < j"
  then have "probe_pos t k j' \<noteq> probe_pos t k j"
    using probe_pos_eq_iff [of j' t j k] j by simp
  then show "entries t' ! probe_pos t k j' = entries t ! probe_pos t k j'"
    by (simp add: ent)
qed

text \<open>After a set, the probe for the key ends at a slot that holds it.\<close>

lemma set_store_then_found:
  fixes t :: "('k, 'v) XHashtable"
  assumes wf: "wf_struct t" and refl: "eq_fn t k k"
    and res: "x_hashtable_set_store t k v = Inr t1"
  shows "wf_struct t1 \<and> (\<exists>j<capacity t1. probe_passes t1 k j \<and> slot_matches t1 k (probe_pos t1 k j))"
proof -
  have c: "0 < capacity t" and len: "length (entries t) = capacity t"
    using wf by (simp_all add: wf_struct_def)
  from wf obtain j f where j: "j < capacity t" and pass: "probe_passes t k j"
    and p: "probe_index t k = Inr (probe_pos t k j, f)"
    and f: "f \<Longrightarrow> slot_matches t k (probe_pos t k j)"
  proof (cases rule: probe_index_cases [where k = k])
    case (empty j)
    then show ?thesis using that [of j False] by simp
  next
    case (match j)
    then show ?thesis using that [of j True] by simp
  next
    case full
    then show ?thesis using that [of 0 False] c by (simp add: probe_passes_def)
  qed
  let ?i = "probe_pos t k j"
  have il: "?i < length (entries t)" using probe_pos_less [OF c] len by simp
  from res show ?thesis
  proof (cases rule: set_store_cases)
    case (update i)
    then have i: "i = ?i" and ft: f using p by simp_all
    let ?e = "(entries t ! ?i)\<lparr>e_value := Some v\<rparr>"
    have t1: "t1 = t\<lparr>entries := (entries t)[?i := ?e]\<rparr>" using update(3) i by simp
    have m: "slot_matches t k ?i" using f ft by simp
    have wf1: "wf_struct t1"
      unfolding t1 using wf il by (intro wf_struct_update) (auto simp: wf_struct_def)
    have "probe_passes t1 k j"
      using probe_passes_update [OF j, of t1 k ?e] pass by (simp add: t1)
    moreover have "slot_matches t1 k (probe_pos t1 k j)"
      using m il by (simp add: t1 slot_matches_iff probe_pos_def)
    ultimately show ?thesis using wf1 j by (auto simp: t1)
  next
    case (insert i a')
    then have i: "i = ?i" using p by simp
    let ?e = "\<lparr>e_key = Some k, e_value = Some v, e_occupied = True\<rparr>"
    have t1: "t1 = t\<lparr>entries := (entries t)[?i := ?e], count := count t + 1, allocator := a'\<rparr>"
      using insert(3) i by simp
    have "wf_struct (t\<lparr>entries := (entries t)[?i := ?e]\<rparr>)"
      using wf il by (intro wf_struct_update) simp_all
    then have wf1: "wf_struct t1" by (simp add: t1 wf_struct_def)
    have "probe_passes t1 k j"
      using probe_passes_update [OF j, of t1 k ?e] pass by (simp add: t1)
    moreover have "slot_matches t1 k (probe_pos t1 k j)"
      using refl il by (simp add: t1 slot_matches_iff probe_pos_def)
    ultimately show ?thesis using wf1 j by (auto simp: t1)
  qed
qed

text \<open>Removing a key that a probe finds clears that slot, and the next probe ends there.\<close>

lemma remove_found_then_absent:
  fixes t1 :: "('k, 'v) XHashtable"
  assumes wf: "wf_struct t1" and j: "j < capacity t1" and pass: "probe_passes t1 k j"
    and m: "slot_matches t1 k (probe_pos t1 k j)"
  shows "\<exists>t2. x_hashtable_remove (Some t1) k = Inr (True, Some t2)
    \<and> x_hashtable_has (Some t2) k = Inr False \<and> count t2 = size_sub (count t1) 1"
proof -
  let ?i = "probe_pos t1 k j"
  define t2 where "t2 = t1\<lparr>allocator := stdx_free (stdx_free (allocator t1)),
      entries := (entries t1)[?i := zero_entry], count := size_sub (count t1) 1\<rparr>"
  have c: "0 < capacity t1" and len: "length (entries t1) = capacity t1"
    using wf by (simp_all add: wf_struct_def)
  have il: "?i < length (entries t1)" using probe_pos_less [OF c] len by simp
  have p: "probe_index t1 k = Inr (?i, True)" using probe_index_match [OF wf j pass m] .
  then have rm: "x_hashtable_remove (Some t1) k = Inr (True, Some t2)"
    using il by (simp add: x_hashtable_remove_def t2_def)
  have "wf_struct (t1\<lparr>entries := (entries t1)[?i := zero_entry]\<rparr>)"
    using wf il by (intro wf_struct_update) (simp_all add: zero_entry_def)
  then have wf2: "wf_struct t2" by (simp add: t2_def wf_struct_def)
  have pos2: "probe_pos t2 k n = probe_pos t1 k n" for n
    by (simp add: probe_pos_def t2_def)
  have "probe_passes t2 k j"
    using probe_passes_update [OF j, of t2 k zero_entry] pass by (simp add: t2_def)
  moreover have "\<not> e_occupied (entries t2 ! probe_pos t2 k j)"
    using il by (simp add: pos2) (simp add: t2_def zero_entry_def)
  moreover have "j < capacity t2" using j by (simp add: t2_def)
  ultimately have "probe_index t2 k = Inr (probe_pos t2 k j, False)"
    using probe_index_empty [OF wf2] by blast
  then have "x_hashtable_has (Some t2) k = Inr False" by (simp add: x_hashtable_has_def)
  then show ?thesis using rm by (auto simp: t2_def)
qed

lemma n_occupied_pos:
  assumes "i < length (entries t)" "e_occupied (entries t ! i)"
  shows "0 < n_occupied t"
proof -
  have "entries t ! i \<in> set (filter e_occupied (entries t))" using assms by simp
  then show ?thesis unfolding n_occupied_def by (rule length_pos_if_in_set)
qed

section \<open>Claims about the hashtable\<close>

subsection \<open>C9: the probe loop terminates within capacity steps\<close>

lemma probe_steps_bound:
  "0 < capacity t \<Longrightarrow> idx < capacity t
    \<Longrightarrow> probe_steps t k idx \<le> Suc (probe_dist (capacity t) (hash_fn t k mod capacity t) idx)"
proof (induction t k idx rule: probe_steps.induct)
  case (1 t k idx)
  let ?c = "capacity t" and ?s = "hash_fn t k mod capacity t"
  let ?n = "(idx + 1) mod ?c"
  show ?case
  proof (cases "length (entries t) \<le> idx \<or> \<not> e_occupied (entries t ! idx)
      \<or> e_key (entries t ! idx) = None
      \<or> (\<exists>k'. e_key (entries t ! idx) = Some k' \<and> eq_fn t k k') \<or> ?n = ?s")
    case True
    then show ?thesis
      by (subst probe_steps.simps) (auto split: option.splits)
  next
    case False
    then obtain k' where k': "e_key (entries t ! idx) = Some k'" "\<not> eq_fn t k k'" by auto
    have ns: "?n \<noteq> ?s" using False by simp
    have nc: "?n < ?c" using "1.prems" by simp
    have "probe_steps t k ?n \<le> Suc (probe_dist ?c ?s ?n)"
      using False k' "1.prems" nc by (intro "1.IH") auto
    moreover have "probe_dist ?c ?s ?n < probe_dist ?c ?s idx"
      using "1.prems" ns by (intro probe_dist_decreases) simp_all
    moreover have "probe_steps t k idx = 1 + probe_steps t k ?n"
      using False k' "1.prems" by (subst probe_steps.simps) auto
    ultimately show ?thesis by simp
  qed
qed

text \<open>
  C9. The probe loop shared by set, get, has and remove terminates for every table state,
  also one in which every slot is occupied and none matches the key: it returns an index
  without a fault and inspects at most \<open>capacity\<close> slots, because it stops when the
  index is back at its start. (\<open>probe_loop\<close> is a total function by its termination
  proof; \<open>probe_index_steps\<close> counts the slots it inspects.)
\<close>

theorem probe_terminates_within_capacity:
  assumes "wf_struct t"
  shows "probe_index_steps t k \<le> capacity t \<and> (\<exists>i found. probe_index t k = Inr (i, found))"
proof -
  have c: "0 < capacity t" using assms by (simp add: wf_struct_def)
  let ?s = "hash_fn t k mod capacity t"
  have "probe_steps t k ?s \<le> Suc (probe_dist (capacity t) ?s ?s)"
    using c by (intro probe_steps_bound) simp_all
  also have "\<dots> = capacity t"
    using c mod_less_divisor [OF c, of "hash_fn t k"] by (simp add: probe_dist_def)
  finally have "probe_index_steps t k \<le> capacity t"
    using c by (simp add: probe_index_steps_def)
  moreover from assms have "\<exists>i found. probe_index t k = Inr (i, found)"
    by (cases rule: probe_index_cases [where k = k]) auto
  ultimately show ?thesis by simp
qed

theorem probe_terminates_within_capacity_witness:
  "wf_struct full_table \<and> probe_index_steps full_table 7 = 2
    \<and> probe_index_steps full_table 7 \<le> capacity full_table
    \<and> probe_index full_table 7 = Inr (1, False)"
proof -
  have wf: "wf_struct full_table" by (simp add: wf_struct_def full_table_def)
  have "probe_index_steps full_table 7 = 2"
    by code_simp
  moreover have "probe_index full_table 7 = Inr (1, False)"
    by code_simp
  ultimately show ?thesis
    using wf probe_terminates_within_capacity [OF wf, of 7] by simp
qed

subsection \<open>C10: a remove that finds nothing changes nothing\<close>

text \<open>
  C10. If \<open>x_hashtable_remove\<close> returns false, the handle it leaves is the handle it
  was given: the slot array, count and capacity are those from before the call, and so
  is the allocator, whose counter of releases has not moved.
\<close>

theorem remove_absent_unchanged:
  "x_hashtable_remove table k = Inr (False, table')
    \<Longrightarrow> table' = table
      \<and> map_option entries table' = map_option entries table
      \<and> x_hashtable_count table' = x_hashtable_count table
      \<and> map_option capacity table' = map_option capacity table
      \<and> map_option (\<lambda>t. n_frees (allocator t)) table'
          = map_option (\<lambda>t. n_frees (allocator t)) table"
  by (auto simp: x_hashtable_remove_def split: option.splits sum.splits prod.splits if_splits)

theorem remove_absent_unchanged_witness:
  "x_hashtable_remove (Some empty_table) 7 = Inr (False, Some empty_table)"
proof -
  have p: "probe_index empty_table 7 = Inr (7, False)"
    by code_simp
  then obtain table' where r: "x_hashtable_remove (Some empty_table) 7 = Inr (False, table')"
    by (simp add: x_hashtable_remove_def)
  from remove_absent_unchanged [OF r] r show ?thesis by simp
qed

subsection \<open>C3: count stays below capacity\<close>

lemma reachable_count_inv: "reachable t \<Longrightarrow> count_inv t"
proof (induction rule: reachable.induct)
  case (create ks vs hf eqf a t)
  then show ?case by (rule create_weak)
next
  case (set t k v ok t')
  from set.hyps(2) have "x_hashtable_set_nonnull t k v = Inr t'"
    by (auto simp: x_hashtable_set_def split: sum.splits)
  from set_nonnull_weak [OF set.IH this] show ?case by simp
next
  case (remove t k found t')
  from remove_weak [OF remove.IH remove.hyps(2)] show ?case by simp
qed

lemma run_sets_reachable:
  "reachable t \<Longrightarrow> run_sets (Some t) ops = Inr (Some t') \<Longrightarrow> reachable t'"
proof (induction ops arbitrary: t)
  case Nil
  then show ?case by simp
next
  case (Cons op ops)
  obtain k v where op: "op = (k, v)" by (cases op)
  from Cons.prems(2) obtain t1 where s: "x_hashtable_set (Some t) k v = Inr (True, Some t1)"
    and r: "run_sets (Some t1) ops = Inr (Some t')"
    by (auto simp: op x_hashtable_set_def split: sum.splits)
  have "reachable t1" using Cons.prems(1) s by (rule reachable.set)
  then show ?case using r by (rule Cons.IH)
qed

text \<open>
  C3. In every table state reachable by create, set, get, has and remove,
  \<open>count \<le> capacity\<close> and, more, \<open>count < capacity\<close>: the table is never full.
\<close>

theorem reachable_count_below_capacity:
  "reachable t \<Longrightarrow> count t \<le> capacity t \<and> count t < capacity t"
  using reachable_count_inv [of t] by (simp add: count_inv_def)

theorem reachable_count_below_capacity_witness:
  "\<exists>t. run_sets (Some empty_table) twelve_ops = Inr (Some t) \<and> reachable t
     \<and> count t = 12 \<and> capacity t = 16 \<and> count t \<le> capacity t \<and> count t < capacity t"
proof -
  have nf: "never_fails (allocator empty_table)"
    by (simp add: empty_table_def never_fails_def always_ok_def)
  obtain t where run: "run_sets (Some empty_table) twelve_ops = Inr (Some t)"
    using run_sets_total [OF create_weak [OF create_empty_table] nf] by blast
  have r0: "reachable empty_table" using create_empty_table by (rule reachable.create)
  have r: "reachable t" using run_sets_reachable [OF r0 run] .
  have "map_sum id (\<lambda>table. (x_hashtable_count table, map_option capacity table))
      (run_sets (Some empty_table) twelve_ops) = Inr (12, Some 16)"
    by code_simp
  then have "count t = 12" "capacity t = 16" using run by (simp_all add: x_hashtable_count_def)
  with reachable_count_below_capacity [OF r] run r show ?thesis by blast
qed

subsection \<open>C4: what set returns\<close>

text \<open>
  C4, as the claim states it, fails: on a table whose allocator serves the two requests of
  \<open>x_hashtable_create_ex\<close> and then fails, \<open>x_hashtable_set\<close> of a new key does not
  report success. The key block it asked for is null and \<open>memcpy\<close> writes through it.
\<close>

theorem set_alloc_failure_counterexample:
  "x_hashtable_create_ex 8 8 nat_hash nat_eq
       \<lparr>will_succeed = two_then_fail, n_allocs = 0, n_frees = 0\<rparr> = Inr (Some exhausted_table)
    \<and> x_hashtable_set (Some exhausted_table) 1 2 = Inl NullDeref"
proof -
  have "x_hashtable_create_ex 8 8 nat_hash nat_eq
       \<lparr>will_succeed = two_then_fail, n_allocs = 0, n_frees = 0\<rparr> = Inr (Some exhausted_table)"
    by (simp add: x_hashtable_create_ex_def stdx_alloc_def two_then_fail_def exhausted_table_def
        INITIAL_CAPACITY_def)
  moreover have "x_hashtable_set (Some exhausted_table) 1 2 = Inl NullDeref"
    by (simp add: x_hashtable_set_def x_hashtable_set_nonnull.simps load_exceeded_def
        x_hashtable_set_store_def probe_index_def probe_loop.simps stdx_alloc_def
        exhausted_table_def zero_entry_def nat_hash_def two_then_fail_def)
  ultimately show ?thesis by simp
qed

text \<open>
  C4, amended. \<open>x_hashtable_set\<close> returns false on the null handle; whenever it returns
  on a handle that is not null it returns true and leaves a table; and it does return
  whenever no allocation fails. What it does when an allocation fails is left open.
\<close>

theorem set_returns_true_unless_null:
  fixes t :: "('k, 'v) XHashtable"
  shows "x_hashtable_set None k v = Inr (False, None)
    \<and> (\<forall>ok table'. x_hashtable_set (Some t) k v = Inr (ok, table') \<longrightarrow> ok \<and> table' \<noteq> None)
    \<and> (wf_struct t \<and> never_fails (allocator t)
         \<longrightarrow> (\<exists>t'. x_hashtable_set (Some t) k v = Inr (True, Some t')))"
proof -
  have "\<exists>t'. x_hashtable_set (Some t) k v = Inr (True, Some t')"
    if "wf_struct t" "never_fails (allocator t)"
    using set_nonnull_total [OF that, of k v] by (auto simp: x_hashtable_set_def)
  then show ?thesis
    by (auto simp: x_hashtable_set_def split: sum.splits)
qed

theorem set_returns_true_unless_null_witness:
  "wf_struct empty_table \<and> never_fails (allocator empty_table)
    \<and> (\<exists>t'. x_hashtable_set (Some empty_table) 1 2 = Inr (True, Some t'))"
proof -
  have "wf_struct empty_table"
    by (simp add: wf_struct_def empty_table_def zero_entry_def)
  moreover have "never_fails (allocator empty_table)"
    by (simp add: never_fails_def empty_table_def always_ok_def)
  ultimately show ?thesis
    using set_returns_true_unless_null [of 1 2 empty_table] by simp
qed

subsection \<open>C2: remove can hide a displaced key\<close>

text \<open>
  C2. There are a table and keys \<open>0\<close>, \<open>16\<close>, \<open>32\<close> with the same initial bucket,
  inserted in this order into slots 0, 1 and 2, such that after removing \<open>16\<close> both get
  and has report \<open>32\<close> as not found (get had found it before the remove), although slot 2
  is still occupied by \<open>32\<close> and its value: remove cleared slot 1 and moved nothing.
\<close>

theorem remove_hides_displaced_key:
  "nat_hash 0 mod INITIAL_CAPACITY = nat_hash 16 mod INITIAL_CAPACITY
   \<and> nat_hash 16 mod INITIAL_CAPACITY = nat_hash 32 mod INITIAL_CAPACITY
   \<and> take 3 (final_slots (create_and_run 8 8 nat_hash nat_eq heap0
         [Set 0 10, Set 16 11, Set 32 (12::nat)]))
       = [(Some 0, Some 10, True), (Some 16, Some 11, True), (Some 32, Some 12, True)]
   \<and> observe (create_and_run 8 8 nat_hash nat_eq heap0
         [Set 0 10, Set 16 11, Set 32 (12::nat), Get 32, Remove 16, Get 32, Has 32])
       = Inr [Flag True, Flag True, Flag True, Copied True (Some 12), Flag True,
              Copied False None, Flag False]
   \<and> take 3 (final_slots (create_and_run 8 8 nat_hash nat_eq heap0
         [Set 0 10, Set 16 11, Set 32 (12::nat), Get 32, Remove 16, Get 32, Has 32]))
       = [(Some 0, Some 10, True), (None, None, False), (Some 32, Some 12, True)]"
  by code_simp

subsection \<open>C1: get returns the value of the latest set\<close>

text \<open>
  C1. For a table created with a hash function and an equality function that are
  consistent with each other, and every sequence of sets made on it (no remove among
  them), get of any key that was set returns found and copies out the value of the most
  recent set of that key; the sequence may cross any number of rehashes. The calls return
  whenever no allocation fails.
\<close>

theorem get_returns_latest_set:
  fixes hf :: "'k \<Rightarrow> nat" and ops :: "('k \<times> 'v) list"
  assumes con: "consistent hf eqf"
  shows "(never_fails a \<longrightarrow>
           (\<exists>t0 t. x_hashtable_create_ex ks vs hf eqf a = Inr (Some t0)
              \<and> run_sets (Some t0) ops = Inr (Some t)))
    \<and> (\<forall>t0 table k v.
          x_hashtable_create_ex ks vs hf eqf a = Inr (Some (t0 :: ('k, 'v) XHashtable))
          \<and> run_sets (Some t0) ops = Inr table \<and> latest eqf ops k = Some v
          \<longrightarrow> x_hashtable_get table k = Inr (True, Some v))"
proof (intro conjI impI allI)
  assume nf: "never_fails a"
  then obtain t0 :: "('k, 'v) XHashtable" where
    cr: "x_hashtable_create_ex ks vs hf eqf a = Inr (Some t0)"
    and a0: "will_succeed (allocator t0) = will_succeed a"
    by (auto simp: x_hashtable_create_ex_def stdx_alloc_def never_fails_def)
  have "never_fails (allocator t0)" using nf a0 by (simp add: never_fails_def)
  then show "\<exists>t0 t. x_hashtable_create_ex ks vs hf eqf a = Inr (Some (t0 :: ('k, 'v) XHashtable))
      \<and> run_sets (Some t0) ops = Inr (Some t)"
    using run_sets_total [OF create_weak [OF cr], of ops] cr by blast
next
  fix t0 :: "('k, 'v) XHashtable" and table k v
  assume h: "x_hashtable_create_ex ks vs hf eqf a = Inr (Some t0)
      \<and> run_sets (Some t0) ops = Inr table \<and> latest eqf ops k = Some v"
  then have cr: "x_hashtable_create_ex ks vs hf eqf a = Inr (Some t0)"
    and run: "run_sets (Some t0) ops = Inr table" and l: "latest eqf ops k = Some v"
    by simp_all
  note cs = create_strong [OF cr]
  from run_sets_strong [OF con cs(1,2,3,4) run] obtain t where t: "table = Some t" "table_inv t"
    "hash_fn t = hf" "eq_fn t = eqf"
    and hs: "\<And>q w. holds t q w \<longleftrightarrow>
      (case latest eqf ops q of Some w' \<Rightarrow> w = w' | None \<Rightarrow> holds t0 q w)"
    by blast
  have hk: "holds t k v" using hs [of k v] l by simp
  have ct: "consistent (hash_fn t) (eq_fn t)" using con t by simp
  show "x_hashtable_get table k = Inr (True, Some v)"
    using get_holds [OF ct t(2) hk] t(1) by simp
qed

lemma crossing_capacity:
  "map_sum id (map_option capacity) (run_sets (Some empty_table) crossing_ops) = Inr (Some 32)"
  by code_simp

theorem get_returns_latest_set_witness:
  "consistent nat_hash nat_eq \<and> never_fails heap0 \<and> latest nat_eq crossing_ops 0 = Some 99
   \<and> (\<exists>t0 table. x_hashtable_create_ex 8 8 nat_hash nat_eq heap0 = Inr (Some t0)
         \<and> run_sets (Some t0) crossing_ops = Inr table
         \<and> map_option capacity table = Some 32
         \<and> x_hashtable_get table 0 = Inr (True, Some 99))"
proof -
  have l: "latest nat_eq crossing_ops 0 = Some 99"
    by (simp add: crossing_ops_def nat_eq_def)
  note th = get_returns_latest_set [OF consistent_nat, of heap0 8 8 crossing_ops]
  from th never_fails_heap0 create_empty_table obtain t where
    run: "run_sets (Some empty_table) crossing_ops = Inr (Some t)" by auto
  have g: "x_hashtable_get (Some t) 0 = Inr (True, Some 99)"
    using th create_empty_table run l by blast
  have "map_option capacity (Some t) = Some 32" using crossing_capacity run by simp
  then show ?thesis
    using consistent_nat never_fails_heap0 l create_empty_table run g by blast
qed

subsection \<open>C5: count after sets\<close>







subsection \<open>C6: set followed by remove\<close>

text \<open>
  C6, as the claim states it, fails. The calls below build a table in which the key 32
  is stored twice: after keys 0, 16 and 32 collided in one bucket and 16 was removed, a
  second set of 32 found the slot of 16 empty. With twelve entries the next set grows the
  table, and rehashing stores 32 once. For the absent key 100, set followed by remove
  then leaves count at 11, not at the 12 from before the set.
\<close>

theorem set_remove_count_counterexample:
  "observe (create_and_run 8 8 nat_hash nat_eq heap0
      [Set 0 10, Set 16 11, Set 32 12, Remove 16, Set 32 13,
       Set 3 0, Set 4 0, Set 5 0, Set 6 0, Set 7 0, Set 8 0, Set 9 0, Set 10 0, Set 11 (0::nat),
       Count, Has 100, Set 100 1, Remove 100, Has 100, Count])
   = Inr [Flag True, Flag True, Flag True, Flag True, Flag True,
          Flag True, Flag True, Flag True, Flag True, Flag True, Flag True, Flag True, Flag True,
          Flag True,
          Size 12, Flag False, Flag True, Flag True, Flag False, Size 11]"
  by code_simp

text \<open>
  C6, amended. In every reachable table state, for a key that equals itself, set followed
  by remove makes remove return true and a following has return false, and the remove
  decrements count by exactly 1. Count is back at its value from before the set when,
  moreover, the key was absent, the hash and equality functions are consistent with each
  other, and the table satisfies the probe-chain invariant, as every table built by sets
  alone does.
\<close>

theorem set_then_remove:
  fixes t :: "('k, 'v) XHashtable"
  assumes reach: "reachable t" and refl: "eq_fn t k k"
    and set: "x_hashtable_set (Some t) k v = Inr (ok, table1)"
  shows "\<exists>table2. x_hashtable_remove table1 k = Inr (True, table2)
    \<and> x_hashtable_has table2 k = Inr False
    \<and> x_hashtable_count table2 + 1 = x_hashtable_count table1
    \<and> (table_inv t \<and> consistent (hash_fn t) (eq_fn t) \<and> x_hashtable_has (Some t) k = Inr False
        \<longrightarrow> x_hashtable_count table2 = x_hashtable_count (Some t))"
proof -
  have inv: "count_inv t" using reach by (rule reachable_count_inv)
  from set obtain t1 where s: "x_hashtable_set_nonnull t k v = Inr t1" and t1: "table1 = Some t1"
    by (auto simp: x_hashtable_set_def split: sum.splits)
  have wf: "wf_struct t" and c16: "16 \<le> capacity t" using inv by (simp_all add: count_inv_def)
  note w1 = set_nonnull_weak [OF inv s]
  have found: "wf_struct t1
      \<and> (\<exists>j<capacity t1. probe_passes t1 k j \<and> slot_matches t1 k (probe_pos t1 k j))"
  proof (cases "load_exceeded t")
    case True
    with s obtain t0 where r: "x_hashtable_rehash t = Inr t0"
      and st: "x_hashtable_set_store t0 k v = Inr t1"
      by (auto simp: x_hashtable_set_nonnull.simps split: sum.splits)
    have "wf_struct t0" "eq_fn t0 k k" using rehash_weak [OF wf r] refl by simp_all
    then show ?thesis using st by (rule set_store_then_found)
  next
    case False
    with s have "x_hashtable_set_store t k v = Inr t1"
      by (simp add: x_hashtable_set_nonnull.simps)
    with wf refl show ?thesis by (rule set_store_then_found)
  qed
  then obtain j where wf1: "wf_struct t1" and j: "j < capacity t1" "probe_passes t1 k j"
    "slot_matches t1 k (probe_pos t1 k j)" by blast
  from remove_found_then_absent [OF wf1 j] obtain t2 where
    rm: "x_hashtable_remove (Some t1) k = Inr (True, Some t2)"
    and has: "x_hashtable_has (Some t2) k = Inr False"
    and cnt: "count t2 = size_sub (count t1) 1" by blast
  have "probe_pos t1 k j < length (entries t1)"
    using wf1 probe_pos_less [of t1 k j] by (simp add: wf_struct_def)
  moreover have "e_occupied (entries t1 ! probe_pos t1 k j)" using j(3) by (simp add: slot_matches_iff)
  ultimately have "0 < n_occupied t1" by (rule n_occupied_pos)
  then have pos: "0 < count t1" using w1 by (simp add: count_inv_def)
  then have dec: "count t2 + 1 = count t1" using cnt by (simp add: size_sub_def)
  have restored: "count t2 = count t"
    if "table_inv t" "consistent (hash_fn t) (eq_fn t)" "x_hashtable_has (Some t) k = Inr False"
  proof -
    have "\<not> present t k" using has_present [OF that(2,1), of k] that(3) by simp
    then have "count t1 = count t + 1"
      using set_nonnull_strong(4) [OF that(2,1) c16 s] by simp
    with dec show ?thesis by simp
  qed
  show ?thesis
    using rm has dec restored by (auto simp: t1 x_hashtable_count_def)
qed

lemma twelve_ops_observed:
  "map_sum id (\<lambda>table. (x_hashtable_count table, x_hashtable_has table 100,
        isl (x_hashtable_set table 100 1),
        map_option load_exceeded table))
     (run_sets (Some empty_table) twelve_ops)
   = Inr (12, Inr False, False, Some True)"
  by code_simp

theorem set_then_remove_witness:
  "\<exists>t ok table1 table2.
     reachable t \<and> eq_fn t 100 100 \<and> table_inv t \<and> consistent (hash_fn t) (eq_fn t)
     \<and> run_sets (Some empty_table) twelve_ops = Inr (Some t)
     \<and> load_exceeded t \<and> count t = 12
     \<and> x_hashtable_has (Some t) 100 = Inr False
     \<and> x_hashtable_set (Some t) 100 1 = Inr (ok, table1)
     \<and> x_hashtable_remove table1 100 = Inr (True, table2)
     \<and> x_hashtable_has table2 100 = Inr False
     \<and> x_hashtable_count table2 + 1 = x_hashtable_count table1
     \<and> x_hashtable_count table2 = 12"
proof -
  note cs = create_strong [OF create_empty_table]
  have nf: "never_fails (allocator empty_table)"
    by (simp add: empty_table_def never_fails_def always_ok_def)
  obtain t where run: "run_sets (Some empty_table) twelve_ops = Inr (Some t)"
    using run_sets_total [OF create_weak [OF create_empty_table] nf] by blast
  from run_sets_strong [OF consistent_nat cs(1,2,3,4) run]
  have ti: "table_inv t" and fn: "hash_fn t = nat_hash" "eq_fn t = nat_eq" by simp_all
  have r0: "reachable empty_table" using create_empty_table by (rule reachable.create)
  have re: "reachable t" using run_sets_reachable [OF r0 run] .
  have con: "consistent (hash_fn t) (eq_fn t)" using consistent_nat fn by simp
  have refl: "eq_fn t 100 100" using fn by (simp add: nat_eq_def)
  have obs: "count t = 12" "x_hashtable_has (Some t) 100 = Inr False"
    "\<not> isl (x_hashtable_set (Some t) 100 1)" "load_exceeded t"
    using twelve_ops_observed run by (simp_all add: x_hashtable_count_def)
  then obtain ok table1 where set: "x_hashtable_set (Some t) 100 1 = Inr (ok, table1)"
    by (cases "x_hashtable_set (Some t) 100 1") auto
  from set_then_remove [OF re refl set] ti con obs(1,2) obtain table2 where
    "x_hashtable_remove table1 100 = Inr (True, table2)"
    "x_hashtable_has table2 100 = Inr False"
    "x_hashtable_count table2 + 1 = x_hashtable_count table1"
    "x_hashtable_count table2 = 12"
    by (auto simp: x_hashtable_count_def)
  then show ?thesis using re refl ti con run obs set by blast
qed

section \<open>Claims about the arena\<close>

subsection \<open>C8: reset only clears the usage counters\<close>

lemma reset_chunks_maps:
  "length (reset_chunks cs) = length cs \<and> map c_used (reset_chunks cs) = replicate (length cs) 0
    \<and> map c_capacity (reset_chunks cs) = map c_capacity cs
    \<and> map c_data (reset_chunks cs) = map c_data cs"
  by (induction cs) auto

text \<open>
  C8. \<open>x_arena_reset\<close> sets \<open>used\<close> to 0 in every chunk of the chain and changes
  nothing else: the chain has the same length and order, every chunk keeps its capacity and
  its buffer, and the arena keeps its \<open>chunk_size\<close>. On the null arena it does nothing.
\<close>

theorem arena_reset_only_clears_used:
  "x_arena_reset None = None
   \<and> (\<exists>a'. x_arena_reset (Some a) = Some a'
         \<and> chunk_size a' = chunk_size a
         \<and> length (chunks a') = length (chunks a)
         \<and> map c_used (chunks a') = replicate (length (chunks a)) 0
         \<and> map c_capacity (chunks a') = map c_capacity (chunks a)
         \<and> map c_data (chunks a') = map c_data (chunks a))"
  by (simp add: x_arena_reset_def reset_chunks_maps)

subsection \<open>C7: allocation is first fit, else a new chunk\<close>

lemma size_sub_plain: "b \<le> a \<Longrightarrow> size_sub a b = a - b"
  by (simp add: size_sub_def)

lemma size_add_plain: "a + b \<le> SIZE_MAX \<Longrightarrow> size_add a b = a + b"
  by (simp add: size_add_def SIZE_MAX_def)

lemma alloc_scan_first_fit:
  assumes "\<forall>c' \<in> set pre. c_used c' \<le> c_capacity c' \<and> c_capacity c' - c_used c' < sz"
    and "c_used c \<le> c_capacity c" "c_capacity c \<le> SIZE_MAX" "sz \<le> c_capacity c - c_used c"
  shows "alloc_scan (pre @ c # post) sz
    = Some (c_data c + c_used c, pre @ c\<lparr>c_used := c_used c + sz\<rparr> # post)"
  using assms
proof (induction pre)
  case Nil
  have "c_used c + sz \<le> SIZE_MAX" using Nil by simp
  then show ?case using Nil by (simp add: size_sub_plain size_add_plain)
next
  case (Cons x pre)
  then show ?case by (simp add: size_sub_plain)
qed

lemma alloc_scan_no_fit:
  "\<forall>c \<in> set cs. c_used c \<le> c_capacity c \<and> c_capacity c - c_used c < sz \<Longrightarrow> alloc_scan cs sz = None"
  by (induction cs) (simp_all add: size_sub_plain)

text \<open>
  C7, as the claim states it, fails: with no fitting chunk and a C library that has no
  memory left, \<open>x_arena_alloc\<close> creates no chunk. It returns null for a size that is not
  0 on an arena that is not null, and the chain is as before.
\<close>

theorem arena_alloc_oom_counterexample:
  "x_arena_alloc (Some full_arena) 8 \<lparr>malloc_result = oom_malloc, n_malloc = 0, n_free = 0\<rparr>
     = (0, Some full_arena, \<lparr>malloc_result = oom_malloc, n_malloc = 1, n_free = 0\<rparr>)"
  by (simp add: x_arena_alloc_def x_arena_chunk_create_def sys_malloc_def full_arena_def
      size_sub_def oom_malloc_def)

text \<open>
  C7, amended. \<open>x_arena_alloc\<close> returns null when the arena is null or the size is 0.
  Otherwise the first chunk of the chain (the one added last comes first) with
  \<open>capacity - used \<ge> size\<close> serves the request: the pointer is its buffer at the old
  offset and its \<open>used\<close> grows by the size. If no chunk fits, it tries to create a chunk
  of capacity \<open>max size chunk_size\<close>: when the C library provides it, the chunk is put in
  front of the chain with \<open>used = size\<close> and the start of its buffer is returned; when it
  does not, null is returned and the arena is unchanged.
\<close>

theorem arena_alloc_first_fit:
  assumes ok: "arena_ok a"
  shows "x_arena_alloc None sz s = (0, None, s)
    \<and> x_arena_alloc (Some a) 0 s = (0, Some a, s)
    \<and> (0 < sz \<and> chunks a = pre @ c # post
          \<and> (\<forall>c' \<in> set pre. c_capacity c' - c_used c' < sz) \<and> sz \<le> c_capacity c - c_used c
        \<longrightarrow> x_arena_alloc (Some a) sz s
              = (c_data c + c_used c,
                 Some (a\<lparr>chunks := pre @ c\<lparr>c_used := c_used c + sz\<rparr> # post\<rparr>), s))
    \<and> (0 < sz \<and> (\<forall>c \<in> set (chunks a). c_capacity c - c_used c < sz)
        \<longrightarrow> (case x_arena_chunk_create (max sz (chunk_size a)) s of
               (Some new_chunk, s') \<Rightarrow>
                 c_capacity new_chunk = max sz (chunk_size a) \<and> c_data new_chunk \<noteq> 0
                 \<and> x_arena_alloc (Some a) sz s
                     = (c_data new_chunk,
                        Some (a\<lparr>chunks := new_chunk\<lparr>c_used := sz\<rparr> # chunks a\<rparr>), s')
             | (None, s') \<Rightarrow> x_arena_alloc (Some a) sz s = (0, Some a, s')))"
proof -
  have fit: "x_arena_alloc (Some a) sz s
      = (c_data c + c_used c, Some (a\<lparr>chunks := pre @ c\<lparr>c_used := c_used c + sz\<rparr> # post\<rparr>), s)"
    if "0 < sz" "chunks a = pre @ c # post" "\<forall>c' \<in> set pre. c_capacity c' - c_used c' < sz"
      "sz \<le> c_capacity c - c_used c"
  proof -
    have "alloc_scan (pre @ c # post) sz
        = Some (c_data c + c_used c, pre @ c\<lparr>c_used := c_used c + sz\<rparr> # post)"
      using ok that by (intro alloc_scan_first_fit) (auto simp: arena_ok_def)
    then show ?thesis using that by (simp add: x_arena_alloc_def)
  qed
  have nofit: "(case x_arena_chunk_create (max sz (chunk_size a)) s of
               (Some new_chunk, s') \<Rightarrow>
                 c_capacity new_chunk = max sz (chunk_size a) \<and> c_data new_chunk \<noteq> 0
                 \<and> x_arena_alloc (Some a) sz s
                     = (c_data new_chunk,
                        Some (a\<lparr>chunks := new_chunk\<lparr>c_used := sz\<rparr> # chunks a\<rparr>), s')
             | (None, s') \<Rightarrow> x_arena_alloc (Some a) sz s = (0, Some a, s'))"
    if "0 < sz" "\<forall>c \<in> set (chunks a). c_capacity c - c_used c < sz"
  proof -
    have "alloc_scan (chunks a) sz = None"
      using ok that by (intro alloc_scan_no_fit) (auto simp: arena_ok_def)
    moreover have "(if chunk_size a < sz then sz else chunk_size a) = max sz (chunk_size a)"
      by (simp add: max_def)
    ultimately show ?thesis using that
      by (auto simp: x_arena_alloc_def x_arena_chunk_create_def split: prod.splits option.splits if_splits)
  qed
  show ?thesis using fit nofit by (simp add: x_arena_alloc_def)
qed

theorem arena_alloc_first_fit_witness:
  "arena_ok two_chunk_arena
   \<and> x_arena_alloc (Some two_chunk_arena) 8 \<lparr>malloc_result = bump_malloc, n_malloc = 0, n_free = 0\<rparr>
       = (4112,
          Some (two_chunk_arena\<lparr>chunks :=
                  [\<lparr>c_capacity = 64, c_used = 60, c_data = 8192\<rparr>,
                   \<lparr>c_capacity = 64, c_used = 24, c_data = 4096\<rparr>]\<rparr>),
          \<lparr>malloc_result = bump_malloc, n_malloc = 0, n_free = 0\<rparr>)
   \<and> arena_ok full_arena
   \<and> x_arena_alloc (Some full_arena) 100 \<lparr>malloc_result = bump_malloc, n_malloc = 0, n_free = 0\<rparr>
       = (8192,
          Some (full_arena\<lparr>chunks :=
                  \<lparr>c_capacity = 100, c_used = 100, c_data = 8192\<rparr> # chunks full_arena\<rparr>),
          \<lparr>malloc_result = bump_malloc, n_malloc = 2, n_free = 0\<rparr>)"
proof -
  let ?s = "\<lparr>malloc_result = bump_malloc, n_malloc = 0, n_free = 0\<rparr>"
  have ok2: "arena_ok two_chunk_arena"
    by (simp add: arena_ok_def two_chunk_arena_def SIZE_MAX_def)
  have ok1: "arena_ok full_arena"
    by (simp add: arena_ok_def full_arena_def SIZE_MAX_def)
  have cr: "x_arena_chunk_create (max 100 (chunk_size full_arena)) ?s
      = (Some \<lparr>c_capacity = 100, c_used = 0, c_data = 8192\<rparr>,
         \<lparr>malloc_result = bump_malloc, n_malloc = 2, n_free = 0\<rparr>)"
    by (simp add: x_arena_chunk_create_def sys_malloc_def bump_malloc_def full_arena_def
        sizeof_XArenaChunk_def)
  have a: "x_arena_alloc (Some two_chunk_arena) 8 ?s
       = (4112,
          Some (two_chunk_arena\<lparr>chunks :=
                  [\<lparr>c_capacity = 64, c_used = 60, c_data = 8192\<rparr>,
                   \<lparr>c_capacity = 64, c_used = 24, c_data = 4096\<rparr>]\<rparr>), ?s)"
    using arena_alloc_first_fit [OF ok2, of 8 ?s "[\<lparr>c_capacity = 64, c_used = 60, c_data = 8192\<rparr>]"
        "\<lparr>c_capacity = 64, c_used = 16, c_data = 4096\<rparr>" "[]"]
    by (simp add: two_chunk_arena_def)
  have b: "x_arena_alloc (Some full_arena) 100 ?s
       = (8192,
          Some (full_arena\<lparr>chunks :=
                  \<lparr>c_capacity = 100, c_used = 100, c_data = 8192\<rparr> # chunks full_arena\<rparr>),
          \<lparr>malloc_result = bump_malloc, n_malloc = 2, n_free = 0\<rparr>)"
    using arena_alloc_first_fit [OF ok1, of 100 ?s "[]" "\<lparr>c_capacity = 0, c_used = 0, c_data = 0\<rparr>" "[]"] cr
    by (simp add: full_arena_def)
  show ?thesis using ok1 ok2 a b by simp
qed

end
